theory Spec2Isabelle
  imports Main
begin

section \<open>The coal transaction engine (src/lib/core.ts)\<close>

text \<open>
  The engine keeps its state in module-level variables and in the objects the caller
  hands to it. The variables become the fields of the record \<open>engine\<close>; the objects
  live in three stores inside the same record, addressed by natural numbers: state
  objects (snapshots), entities, and frames. A reference that JavaScript would hold as
  \<open>undefined\<close> is \<open>None\<close>. Transaction numbers are \<open>int\<close>, because the code
  computes \<open>currentTransactionNumber - 1\<close>.

  Objects are the plain data objects that the helpers of src/test/coal.spec.ts build:
  they carry no \<open>clone\<close>, \<open>cloneState\<close> or merge hooks, so \<open>makeWritable\<close> always
  takes the built-in \<open>clone\<close>. The properties of a snapshot that do not belong to the
  engine are the map \<open>s_data\<close> from property names to values.
\<close>

subsection \<open>Data\<close>

type_synonym addr = nat
type_synonym TransactionSet = "int \<Rightarrow> bool"
type_synonym callback = nat

datatype FrameState = Open | Paused | Aborted | Committed

datatype error =
    NoOpenTransaction
  | AlreadyInTransaction
  | InvalidInternalState
  | InvalidPausedTransaction
  | MergeError
  | TypeError

record Frame =
  state :: FrameState
  onabort :: "callback option"
  oncommit :: "callback option"

record Transaction =
  number :: int
  mutated :: "addr list"
  invalid :: TransactionSet
  frame :: addr

record 'v State =
  s_min :: "int option"
  s_max :: "int option"
  s_previous :: "addr option"
  s_entity :: "addr option"
  s_object :: "addr option"
  s_data :: "string \<rightharpoonup> 'v"

record Entity =
  e_transaction :: "int option"
  e_previous :: "addr option"
  e_state :: "addr option"

text \<open>A callback is known to the engine only as something it may call; every call is
  appended to the trace \<open>invoked\<close>.\<close>

datatype call = OnCommit callback "addr list" | OnAbort callback

text \<open>\<open>interface WithPredicessor\<close>: the holder of a \<open>_previous\<close> link is the entity
  or a state object.\<close>

datatype WithPredicessor = EntityRef addr | StateRef addr

record 'v engine =
  highestTransaction :: int
  highestCommittedTransaction :: int
  currentTransactionNumber :: int
  currentTransaction :: "Transaction option"
  openTransactions :: "int \<rightharpoonup> FrameState"
  stateObjectsWithPredecessors :: "addr list"
  pausedTransactions :: "Transaction option list"
  states :: "addr \<Rightarrow> 'v State"
  nextState :: addr
  entities :: "addr \<Rightarrow> Entity"
  nextEntity :: addr
  frames :: "addr \<Rightarrow> Frame"
  nextFrame :: addr
  invoked :: "call list"

text \<open>What a call does: it returns a value, throws, or never returns. A throw keeps
  the engine state reached so far, since nothing is rolled back.\<close>

datatype ('r, 's) outcome = Returns 'r 's | Throws error 's | Diverges

definition emptyState :: "'v State" where
  "emptyState = \<lparr>s_min = None, s_max = None, s_previous = None, s_entity = None,
     s_object = None, s_data = Map.empty\<rparr>"

definition emptyEntity :: Entity where
  "emptyEntity = \<lparr>e_transaction = None, e_previous = None, e_state = None\<rparr>"

definition init :: "'v engine" where
  "init = \<lparr>highestTransaction = 0, highestCommittedTransaction = 0,
     currentTransactionNumber = 0, currentTransaction = None,
     openTransactions = Map.empty, stateObjectsWithPredecessors = [],
     pausedTransactions = [],
     states = (\<lambda>_. emptyState), nextState = 0,
     entities = (\<lambda>_. emptyEntity), nextEntity = 0,
     frames = (\<lambda>_. \<lparr>state = Open, onabort = None, oncommit = None\<rparr>), nextFrame = 0,
     invoked = []\<rparr>"

subsection \<open>Visibility\<close>

definition isValid :: "int option \<Rightarrow> int \<Rightarrow> TransactionSet \<Rightarrow> bool" where
  "isValid ident current inval =
     (case ident of
        None \<Rightarrow> False
      | Some i \<Rightarrow> if i \<le> current then \<not> inval i else False)"

definition hidden :: "(addr \<Rightarrow> 'v State) \<Rightarrow> addr \<Rightarrow> int \<Rightarrow> TransactionSet \<Rightarrow> bool" where
  "hidden h a transactionId inval =
     (\<not> isValid (s_min (h a)) transactionId inval \<or> isValid (s_max (h a)) transactionId inval)"

text \<open>The \<open>while\<close> loop of \<open>findVisible\<close>; it follows \<open>_previous\<close> links of the store
  and does not return on a cyclic chain.\<close>

partial_function (option) findVisible_loop ::
  "(addr \<Rightarrow> 'v State) \<Rightarrow> addr option \<Rightarrow> int \<Rightarrow> TransactionSet \<Rightarrow> addr option option"
where
  "findVisible_loop h st transactionId inval =
     (case st of
        None \<Rightarrow> Some None
      | Some a \<Rightarrow>
          if hidden h a transactionId inval
          then findVisible_loop h (s_previous (h a)) transactionId inval
          else Some (Some a))"

declare findVisible_loop.simps [code]

definition findVisible ::
  "(addr \<Rightarrow> 'v State) \<Rightarrow> addr \<Rightarrow> int \<Rightarrow> TransactionSet \<Rightarrow> addr option option"
where
  "findVisible h a transactionId inval =
     (if hidden h a transactionId inval
      then findVisible_loop h (s_previous (h a)) transactionId inval
      else Some (Some a))"

definition invalidOf :: "Transaction option \<Rightarrow> TransactionSet" where
  "invalidOf t = (case t of None \<Rightarrow> (\<lambda>_. False) | Some tr \<Rightarrow> invalid tr)"

definition makeReadable :: "addr \<Rightarrow> 'v engine \<Rightarrow> (unit, 'v engine) outcome" where
  "makeReadable entity s =
     (case e_previous (entities s entity) of
        None \<Rightarrow> Throws TypeError s
      | Some first \<Rightarrow>
          (case findVisible (states s) first (currentTransactionNumber s)
                  (invalidOf (currentTransaction s)) of
             None \<Rightarrow> Diverges
           | Some readableState \<Rightarrow>
               Returns () (s\<lparr>entities := (entities s)(entity := (entities s entity)
                 \<lparr>e_state := readableState,
                  e_transaction := Some (currentTransactionNumber s)\<rparr>)\<rparr>)))"

definition ensureReadable :: "addr \<Rightarrow> 'v engine \<Rightarrow> (unit, 'v engine) outcome" where
  "ensureReadable entity s =
     (if e_transaction (entities s entity) \<noteq> Some (currentTransactionNumber s)
      then makeReadable entity s
      else Returns () s)"

subsection \<open>Copy on write\<close>

definition clone :: "'v State \<Rightarrow> 'v State" where
  "clone st = emptyState\<lparr>s_data :=
     (\<lambda>n. case n of
        [] \<Rightarrow> s_data st n
      | c # _ \<Rightarrow> if c \<noteq> CHR ''_'' then s_data st n else None)\<rparr>"

definition currentInvalid :: "'v engine \<Rightarrow> TransactionSet" where
  "currentInvalid s =
     (\<lambda>index. 0 \<le> index \<and>
        (openTransactions s index = Some Open \<or> openTransactions s index = Some Aborted))"

definition minOrZero :: "(addr \<Rightarrow> 'v State) \<Rightarrow> addr \<Rightarrow> int" where
  "minOrZero h a = (case s_min (h a) of None \<Rightarrow> 0 | Some m \<Rightarrow> m)"

text \<open>The \<open>while\<close> loop of \<open>makeWritable\<close>: it returns the final \<open>next\<close> and
  \<open>previous\<close>.\<close>

partial_function (option) spliceWalk ::
  "(addr \<Rightarrow> 'v State) \<Rightarrow> WithPredicessor \<Rightarrow> addr option \<Rightarrow> int
     \<Rightarrow> (WithPredicessor \<times> addr option) option"
where
  "spliceWalk h next previous n =
     (case previous of
        None \<Rightarrow> Some (next, previous)
      | Some a \<Rightarrow>
          if minOrZero h a > n
          then spliceWalk h (StateRef a) (s_previous (h a)) n
          else Some (next, previous))"

declare spliceWalk.simps [code]

definition setPrevious :: "WithPredicessor \<Rightarrow> addr \<Rightarrow> 'v engine \<Rightarrow> 'v engine" where
  "setPrevious next newState s =
     (case next of
        EntityRef e \<Rightarrow>
          s\<lparr>entities := (entities s)(e := (entities s e)\<lparr>e_previous := Some newState\<rparr>)\<rparr>
      | StateRef a \<Rightarrow>
          s\<lparr>states := (states s)(a := (states s a)\<lparr>s_previous := Some newState\<rparr>)\<rparr>)"

text \<open>\<open>makeWritable\<close> in three parts. \<open>newClone\<close> is the allocation of \<open>newState\<close> with
  its \<open>_min\<close> and \<open>_entity\<close> (lines 178 to 180), \<open>spliceWalk\<close> the loop, and
  \<open>linkNewState\<close> the assignments after the loop (lines 189 to 195).\<close>

definition newClone :: "addr \<Rightarrow> addr \<Rightarrow> 'v engine \<Rightarrow> 'v engine" where
  "newClone entity st s =
     s\<lparr>states := (states s)(nextState s := (clone (states s st))
          \<lparr>s_min := Some (currentTransactionNumber s), s_entity := Some entity\<rparr>),
       nextState := Suc (nextState s)\<rparr>"

definition linkNewState ::
  "addr \<Rightarrow> addr \<Rightarrow> addr \<Rightarrow> WithPredicessor \<Rightarrow> addr option \<Rightarrow> 'v engine \<Rightarrow> 'v engine"
where
  "linkNewState entity st newState next previous s =
     (let s3 = s\<lparr>states := (states s)(newState := (states s newState)
                   \<lparr>s_previous := previous\<rparr>)\<rparr>;
          s4 = setPrevious next newState s3;
          s5 = s4\<lparr>states := (states s4)(st := (states s4 st)
                   \<lparr>s_max := Some (currentTransactionNumber s4)\<rparr>)\<rparr>;
          s6 = s5\<lparr>entities := (entities s5)(entity := (entities s5 entity)
                   \<lparr>e_state := Some newState\<rparr>)\<rparr>
      in s6\<lparr>currentTransaction :=
              map_option (\<lambda>t. t\<lparr>mutated := mutated t @ [newState]\<rparr>) (currentTransaction s6),
            stateObjectsWithPredecessors := stateObjectsWithPredecessors s6 @ [newState]\<rparr>)"

definition makeWritable :: "addr \<Rightarrow> 'v engine \<Rightarrow> (unit, 'v engine) outcome" where
  "makeWritable entity s =
     (case currentTransaction s of
        None \<Rightarrow> Throws NoOpenTransaction s
      | Some _ \<Rightarrow>
        (case ensureReadable entity s of
           Diverges \<Rightarrow> Diverges
         | Throws x s1 \<Rightarrow> Throws x s1
         | Returns _ s1 \<Rightarrow>
           (case e_state (entities s1 entity) of
              None \<Rightarrow> Throws TypeError s1
            | Some st \<Rightarrow>
              (let s2 = newClone entity st s1
               in case spliceWalk (states s2) (EntityRef entity)
                         (e_previous (entities s2 entity)) (currentTransactionNumber s2) of
                    None \<Rightarrow> Diverges
                  | Some (next, previous) \<Rightarrow>
                      Returns () (linkNewState entity st (nextState s1) next previous s2)))))"

definition ensureWritable :: "addr \<Rightarrow> 'v engine \<Rightarrow> (unit, 'v engine) outcome" where
  "ensureWritable entity s =
     (if e_transaction (entities s entity) \<noteq> Some (currentTransactionNumber s)
      then makeWritable entity s
      else (case e_state (entities s entity) of
              None \<Rightarrow> Throws TypeError s
            | Some st \<Rightarrow>
                if s_min (states s st) \<noteq> Some (currentTransactionNumber s)
                then makeWritable entity s
                else Returns () s))"

subsection \<open>Binding\<close>

definition bindState :: "addr \<Rightarrow> addr \<Rightarrow> 'v engine \<Rightarrow> 'v engine" where
  "bindState object st s =
     s\<lparr>entities := (entities s)(object := (entities s object)
          \<lparr>e_state := Some st, e_previous := Some st,
           e_transaction := Some (currentTransactionNumber s)\<rparr>),
       states := (states s)(st := (states s st)
          \<lparr>s_object := Some object, s_min := Some (currentTransactionNumber s)\<rparr>)\<rparr>"

text \<open>The names that the object of a caller may give to its properties: every name
  that the engine does not use itself. On a state object the engine reads \<open>_min\<close>,
  \<open>_max\<close>, \<open>_previous\<close>, \<open>_entity\<close>, \<open>clone\<close>, \<open>constructor\<close> and
  \<open>hasOwnProperty\<close>, on an entity \<open>_transaction\<close>, \<open>_previous\<close>,
  \<open>_state\<close> and \<open>cloneState\<close>, and \<open>clone\<close> leaves out every name that begins
  with an underscore.\<close>

definition reserved :: "string \<Rightarrow> bool" where
  "reserved n =
     ((case n of [] \<Rightarrow> False | c # _ \<Rightarrow> c = CHR ''_'') \<or>
      n \<in> set [''clone'', ''cloneState'', ''constructor'', ''hasOwnProperty''])"

typedef pname = "{n :: string. \<not> reserved n}"
  by (rule exI [of _ "[]"]) (simp add: reserved_def)

text \<open>The properties of an object, looked up by any string.\<close>

definition dataOf :: "(pname \<rightharpoonup> 'v) \<Rightarrow> (string \<rightharpoonup> 'v)" where
  "dataOf props = (\<lambda>n. if reserved n then None else props (Abs_pname n))"

text \<open>\<open>model\<close> of src/test/coal.spec.ts: a fresh state object and a fresh entity are
  bound, then each property of the argument is stored in the state object itself
  (\<open>s[name] = object[name]\<close>) and an accessor of the same name is defined on the
  entity. The names are of type \<open>pname\<close>: a property called \<open>_max\<close> would take the
  place of the field of the engine in the state object, and an accessor called
  \<open>_state\<close> the place of the field of the entity. It returns the entity. The
  decorator \<open>entity\<close> of the same file binds in the same way, with
  \<open>bindState(this, {})\<close>.\<close>

definition model :: "(pname \<rightharpoonup> 'v) \<Rightarrow> 'v engine \<Rightarrow> (addr, 'v engine) outcome" where
  "model props s =
     (let sa = nextState s;
          m = nextEntity s;
          s1 = s\<lparr>states := (states s)(sa := emptyState), nextState := Suc sa,
                 entities := (entities s)(m := emptyEntity), nextEntity := Suc m\<rparr>;
          s2 = bindState m sa s1
      in Returns m (s2\<lparr>states := (states s2)(sa := (states s2 sa)\<lparr>s_data := dataOf props\<rparr>)\<rparr>))"

subsection \<open>Transactions\<close>

definition setFrameState :: "addr \<Rightarrow> FrameState \<Rightarrow> 'v engine \<Rightarrow> 'v engine" where
  "setFrameState f fs s = s\<lparr>frames := (frames s)(f := (frames s f)\<lparr>state := fs\<rparr>)\<rparr>"

definition beginTransaction ::
  "callback option \<Rightarrow> callback option \<Rightarrow> 'v engine \<Rightarrow> (addr, 'v engine) outcome"
where
  "beginTransaction oncommit_cb onabort_cb s =
     (case currentTransaction s of
        Some _ \<Rightarrow> Throws AlreadyInTransaction s
      | None \<Rightarrow>
         (let n = highestTransaction s + 1;
              s1 = s\<lparr>highestTransaction := n, currentTransactionNumber := n\<rparr>;
              inval = currentInvalid s1;
              f = nextFrame s1;
              s2 = s1\<lparr>frames := (frames s1)
                         (f := \<lparr>state = Open, onabort = onabort_cb, oncommit = oncommit_cb\<rparr>),
                       nextFrame := Suc f\<rparr>
          in Returns f (s2\<lparr>
               currentTransaction :=
                 Some \<lparr>number = n, mutated = [], invalid = inval, frame = f\<rparr>,
               openTransactions := (openTransactions s2)(n \<mapsto> Open)\<rparr>)))"

definition pauseTransaction :: "'v engine \<Rightarrow> (nat, 'v engine) outcome" where
  "pauseTransaction s =
     (case currentTransaction s of
        None \<Rightarrow> Throws NoOpenTransaction s
      | Some t \<Rightarrow>
         (let pausedId = length (pausedTransactions s);
              s1 = s\<lparr>pausedTransactions := pausedTransactions s @ [Some t]\<rparr>;
              s2 = setFrameState (frame t) Paused s1
          in Returns pausedId (s2\<lparr>
               currentTransaction := None,
               currentTransactionNumber := highestCommittedTransaction s2\<rparr>)))"

text \<open>Reading a slot of the sparse array \<open>pausedTransactions\<close>: a hole and an index
  past the end both give \<open>undefined\<close>.\<close>

definition slot :: "'a option list \<Rightarrow> nat \<Rightarrow> 'a option" where
  "slot xs i = (if i < length xs then xs ! i else None)"

definition restoreTransaction :: "nat \<Rightarrow> 'v engine \<Rightarrow> (unit, 'v engine) outcome" where
  "restoreTransaction pausedId s =
     (case currentTransaction s of
        Some _ \<Rightarrow> Throws InvalidInternalState s
      | None \<Rightarrow>
         (case slot (pausedTransactions s) pausedId of
            None \<Rightarrow> Throws InvalidPausedTransaction s
          | Some pausedTransaction \<Rightarrow>
              if openTransactions s (number pausedTransaction) \<noteq> Some Open
              then Throws InvalidPausedTransaction s
              else
                (let s1 = s\<lparr>currentTransaction := Some pausedTransaction\<rparr>;
                     s2 = setFrameState (frame pausedTransaction) Open s1
                 in Returns () (s2\<lparr>
                      currentTransactionNumber := number pausedTransaction,
                      pausedTransactions := (pausedTransactions s2)[pausedId := None]\<rparr>))))"

text \<open>The last statement of \<open>abortTransaction\<close> is \<open>if (frame.onabort) frame.onabort;\<close>:
  it reads the property and calls nothing, so the trace \<open>invoked\<close> stays as it is.\<close>

definition abortTransaction :: "'v engine \<Rightarrow> (unit, 'v engine) outcome" where
  "abortTransaction s =
     (case currentTransaction s of
        None \<Rightarrow> Throws NoOpenTransaction s
      | Some t \<Rightarrow>
         (let s1 = s\<lparr>openTransactions :=
                      (openTransactions s)(currentTransactionNumber s \<mapsto> Aborted)\<rparr>;
              s2 = setFrameState (frame t) Aborted s1
          in Returns () (s2\<lparr>
               currentTransactionNumber := highestCommittedTransaction s2,
               currentTransaction := None\<rparr>)))"

text \<open>The body of \<open>mutated.forEach\<close> in \<open>commitTransaction\<close>: \<open>Some None\<close> when every
  state object passes, \<open>Some (Some e)\<close> when the body throws \<open>e\<close>, \<open>None\<close> when a
  \<open>findVisible\<close> does not return.\<close>

fun checkMutated ::
  "'v engine \<Rightarrow> int \<Rightarrow> TransactionSet \<Rightarrow> TransactionSet \<Rightarrow> addr list \<Rightarrow> error option option"
where
  "checkMutated s baseTransaction baseInvalid inval [] = Some None"
| "checkMutated s baseTransaction baseInvalid inval (st # rest) =
     (case s_entity (states s st) of
        None \<Rightarrow> Some (Some TypeError)
      | Some e \<Rightarrow>
         (case e_previous (entities s e) of
            None \<Rightarrow> Some (Some TypeError)
          | Some first \<Rightarrow>
             (case findVisible (states s) first baseTransaction baseInvalid of
                None \<Rightarrow> None
              | Some baseState \<Rightarrow>
                 (case findVisible (states s) first (highestCommittedTransaction s) inval of
                    None \<Rightarrow> None
                  | Some current \<Rightarrow>
                      if baseState \<noteq> current then Some (Some MergeError)
                      else checkMutated s baseTransaction baseInvalid inval rest))))"

definition commitTransaction :: "'v engine \<Rightarrow> (addr list, 'v engine) outcome" where
  "commitTransaction s =
     (case currentTransaction s of
        None \<Rightarrow> Throws NoOpenTransaction s
      | Some t \<Rightarrow>
         (let baseTransaction = currentTransactionNumber s - 1;
              baseInvalid = invalid t;
              inval = currentInvalid s
          in case checkMutated s baseTransaction baseInvalid inval (mutated t) of
               None \<Rightarrow> Diverges
             | Some (Some e) \<Rightarrow>
                 (case abortTransaction s of
                    Returns _ s' \<Rightarrow> Throws e s'
                  | Throws x s' \<Rightarrow> Throws x s'
                  | Diverges \<Rightarrow> Diverges)
             | Some None \<Rightarrow>
                 (let s1 = s\<lparr>openTransactions :=
                              (openTransactions s)(currentTransactionNumber s := None)\<rparr>;
                      s2 = (if currentTransactionNumber s1 > highestCommittedTransaction s1
                            then s1\<lparr>highestCommittedTransaction := currentTransactionNumber s1\<rparr>
                            else s1\<lparr>currentTransactionNumber := highestCommittedTransaction s1\<rparr>);
                      s3 = (setFrameState (frame t) Committed s2)\<lparr>currentTransaction := None\<rparr>
                  in case oncommit (frames s3 (frame t)) of
                       None \<Rightarrow> Returns (mutated t) s3
                     | Some cb \<Rightarrow>
                         Returns (mutated t)
                           (s3\<lparr>invoked := invoked s3 @ [OnCommit cb (mutated t)]\<rparr>))))"

subsection \<open>Sequences of calls\<close>

datatype 'v op =
    BeginTransaction "callback option" "callback option"
  | PauseTransaction
  | RestoreTransaction nat
  | AbortTransaction
  | CommitTransaction
  | EnsureReadable addr
  | EnsureWritable addr
  | Model "pname \<rightharpoonup> 'v"

text \<open>The engine state a call leaves behind, whether it returned or threw; \<open>None\<close>
  when it does not return.\<close>

fun after :: "('r, 's) outcome \<Rightarrow> 's option" where
  "after (Returns _ s) = Some s"
| "after (Throws _ s) = Some s"
| "after Diverges = None"

fun step :: "'v op \<Rightarrow> 'v engine \<Rightarrow> 'v engine option" where
  "step (BeginTransaction c a) s = after (beginTransaction c a s)"
| "step PauseTransaction s = after (pauseTransaction s)"
| "step (RestoreTransaction i) s = after (restoreTransaction i s)"
| "step AbortTransaction s = after (abortTransaction s)"
| "step CommitTransaction s = after (commitTransaction s)"
| "step (EnsureReadable e) s = after (ensureReadable e s)"
| "step (EnsureWritable e) s = after (ensureWritable e s)"
| "step (Model props) s = after (model props s)"

fun run :: "'v op list \<Rightarrow> 'v engine \<Rightarrow> 'v engine option" where
  "run [] s = Some s"
| "run (x # xs) s = (case step x s of None \<Rightarrow> None | Some s' \<Rightarrow> run xs s')"

subsection \<open>Notions used in the properties\<close>

text \<open>The chain that starts at a reference: the state objects met by following
  \<open>_previous\<close> until it is undefined.\<close>

fun chain :: "(addr \<Rightarrow> 'v State) \<Rightarrow> addr option \<Rightarrow> addr list \<Rightarrow> bool" where
  "chain h p [] = (p = None)"
| "chain h p (a # as) = (p = Some a \<and> chain h (s_previous (h a)) as)"

text \<open>The module-level variables that the object stores do not hold, and the object
  stores; most calls leave one of the two groups as it was.\<close>

definition controlOf ::
  "'v engine \<Rightarrow> int \<times> int \<times> int \<times> (int \<rightharpoonup> FrameState) \<times> Transaction option list \<times>
     (addr \<Rightarrow> Frame) \<times> addr \<times> call list"
where
  "controlOf s = (highestTransaction s, highestCommittedTransaction s,
     currentTransactionNumber s, openTransactions s, pausedTransactions s, frames s,
     nextFrame s, invoked s)"

definition heapOf ::
  "'v engine \<Rightarrow> (addr \<Rightarrow> 'v State) \<times> addr \<times> (addr \<Rightarrow> Entity) \<times> addr \<times> addr list"
where
  "heapOf s = (states s, nextState s, entities s, nextEntity s,
     stateObjectsWithPredecessors s)"

text \<open>In a state reached from the initial one, the active transaction carries the
  current transaction number and is marked open in the lifecycle table.\<close>

definition activeOpen :: "'v engine \<Rightarrow> bool" where
  "activeOpen s = (case currentTransaction s of None \<Rightarrow> True
     | Some t \<Rightarrow> number t = currentTransactionNumber s \<and>
         openTransactions s (currentTransactionNumber s) = Some Open)"

text \<open>A slot of \<open>pausedTransactions\<close> that has been freed: inside the array and a hole.\<close>

definition freed :: "'v engine \<Rightarrow> nat \<Rightarrow> bool" where
  "freed s i = (i < length (pausedTransactions s) \<and> pausedTransactions s ! i = None)"

text \<open>The engine state after \<open>makeWritable\<close> has allocated the new state object and
  linked it in.\<close>

definition afterWrite ::
  "addr \<Rightarrow> addr \<Rightarrow> WithPredicessor \<Rightarrow> addr option \<Rightarrow> 'v engine \<Rightarrow> 'v engine"
where
  "afterWrite e st nx pr s1 = linkNewState e st (nextState s1) nx pr (newClone e st s1)"

text \<open>The test of \<open>ensureWritable\<close>: the entity was resolved for the current
  transaction and its cached state was created by it.\<close>

definition writable :: "'v engine \<Rightarrow> addr \<Rightarrow> bool" where
  "writable s e =
     (e_transaction (entities s e) = Some (currentTransactionNumber s) \<and>
      (\<exists>st. e_state (entities s e) = Some st \<and>
            s_min (states s st) = Some (currentTransactionNumber s)))"

text \<open>The comparison that \<open>commitTransaction\<close> makes for one state object of the
  mutation log of transaction \<open>t\<close>: the snapshot visible at baseline against the
  snapshot visible now, both looked up from \<open>state._entity._previous\<close>.\<close>

definition conflicting :: "'v engine \<Rightarrow> Transaction \<Rightarrow> addr \<Rightarrow> bool" where
  "conflicting s t st =
     (case s_entity (states s st) of
        None \<Rightarrow> False
      | Some e \<Rightarrow>
         (case e_previous (entities s e) of
            None \<Rightarrow> False
          | Some first \<Rightarrow>
              findVisible (states s) first (number t - 1) (invalid t) \<noteq>
              findVisible (states s) first (highestCommittedTransaction s) (currentInvalid s)))"

text \<open>Following \<open>_previous\<close> from a reference reaches the end of a chain.\<close>

definition ends :: "(addr \<Rightarrow> 'v State) \<Rightarrow> addr option \<Rightarrow> bool" where
  "ends h p = (\<exists>xs. chain h p xs)"

text \<open>Every state object of a mutation log names its entity, and the chain of that
  entity ends.\<close>

definition logged :: "'v engine \<Rightarrow> addr list \<Rightarrow> bool" where
  "logged s ms =
     (\<forall>st\<in>set ms. \<exists>e first. s_entity (states s st) = Some e \<and>
        e_previous (entities s e) = Some first \<and> ends (states s) (Some first))"

subsection \<open>Invariants of the states reached from the initial one\<close>

text \<open>The entity that a state object belongs to: \<open>_entity\<close>, set by \<open>makeWritable\<close>,
  or else \<open>_object\<close>, set by \<open>bindState\<close>.\<close>

definition ownerOf :: "'v State \<Rightarrow> addr option" where
  "ownerOf st = (case s_entity st of Some e \<Rightarrow> Some e | None \<Rightarrow> s_object st)"

text \<open>\<open>xs\<close> is the chain of the bound entity \<open>e\<close>: it ends, is not empty, holds only
  allocated state objects of \<open>e\<close>, among them the cached \<open>_state\<close> if there is one,
  and at least one of them has no \<open>_max\<close>.\<close>

definition boundEntity :: "'v engine \<Rightarrow> addr \<Rightarrow> addr list \<Rightarrow> bool" where
  "boundEntity s e xs =
     (chain (states s) (e_previous (entities s e)) xs \<and> xs \<noteq> [] \<and>
      (\<forall>a\<in>set xs. a < nextState s \<and> ownerOf (states s a) = Some e) \<and>
      (\<forall>st. e_state (entities s e) = Some st \<longrightarrow> st \<in> set xs) \<and>
      (\<exists>a\<in>set xs. s_max (states s a) = None))"

definition transactionsOf :: "'v engine \<Rightarrow> Transaction set" where
  "transactionsOf s =
     set_option (currentTransaction s) \<union> {t. Some t \<in> set (pausedTransactions s)}"

definition wellFormed :: "'v engine \<Rightarrow> bool" where
  "wellFormed s =
     ((\<forall>e<nextEntity s. \<exists>xs. boundEntity s e xs) \<and>
      (\<forall>e\<ge>nextEntity s. entities s e = emptyEntity) \<and>
      (\<forall>t\<in>transactionsOf s. \<forall>st\<in>set (mutated t).
         st < nextState s \<and> (\<exists>e<nextEntity s. s_entity (states s st) = Some e)))"

text \<open>Transaction numbers in the lifecycle table lie between 1 and
  \<open>highestTransaction\<close>.\<close>

definition tableBounded :: "'v engine \<Rightarrow> bool" where
  "tableBounded s =
     (0 \<le> highestTransaction s \<and>
      (\<forall>k. openTransactions s k \<noteq> None \<longrightarrow> 1 \<le> k \<and> k \<le> highestTransaction s))"

definition reachableInv :: "'v engine \<Rightarrow> bool" where
  "reachableInv s = (activeOpen s \<and> tableBounded s \<and> wellFormed s)"







subsection \<open>Example inputs\<close>

text \<open>The chain of the entity of the test "should isolate transactions from each
  other" after both paused transactions have written it: snapshot 2 (created by
  transaction 3) links to snapshot 1 (created by 2), which links to snapshot 0 (created
  by 1 and retired last by 3).\<close>

definition isolatedChain :: "addr \<Rightarrow> nat State" where
  "isolatedChain =
     (\<lambda>_. emptyState)
       (0 := emptyState\<lparr>s_min := Some 1, s_max := Some 3, s_object := Some 0\<rparr>,
        1 := emptyState\<lparr>s_min := Some 2, s_previous := Some 0, s_entity := Some 0\<rparr>,
        2 := emptyState\<lparr>s_min := Some 3, s_previous := Some 1, s_entity := Some 0\<rparr>)"

text \<open>Transaction 1 is paused, transaction 2 commits, then transaction 1 is resumed.\<close>

definition lateCommitPrefix :: "nat op list" where
  "lateCommitPrefix = [BeginTransaction None None, PauseTransaction, BeginTransaction None None]"

definition lateCommitSuffix :: "nat op list" where
  "lateCommitSuffix = [CommitTransaction, RestoreTransaction 0]"

text \<open>A transaction is begun and paused; then it is restored.\<close>

definition pausedOnce :: "nat op list" where
  "pausedOnce = [BeginTransaction None None, PauseTransaction]"

definition pausedTwice :: "nat op list" where
  "pausedTwice = [BeginTransaction None None, PauseTransaction, RestoreTransaction 0]"

text \<open>The start of the test "should isolate transactions from each other": an entity
  is created and committed by transaction 1, written by transaction 2, which is paused,
  and then written by transaction 3.\<close>

definition firstWriter :: "nat op list" where
  "firstWriter = [BeginTransaction None None, Model Map.empty, CommitTransaction,
     BeginTransaction None None, EnsureWritable 0, PauseTransaction]"

definition secondWriter :: "nat op list" where
  "secondWriter = [BeginTransaction None None, EnsureWritable 0]"

text \<open>A lower-numbered paused transaction resumes after a higher-numbered one has
  committed a snapshot onto the chain: transaction 2 is paused before it writes,
  transaction 3 writes the entity and commits, then transaction 2 is restored.\<close>

definition lateWriter :: "nat op list" where
  "lateWriter = [BeginTransaction None None, Model Map.empty, CommitTransaction,
     BeginTransaction None None, PauseTransaction,
     BeginTransaction None None, EnsureWritable 0, CommitTransaction,
     RestoreTransaction 0]"

text \<open>Transaction 2 is paused before it writes, transaction 3 writes the entity and
  commits, then transaction 2 is restored and writes the same entity. In the second
  sequence nothing happens between the write and the commit.\<close>

definition conflictingCommit :: "nat op list" where
  "conflictingCommit = [BeginTransaction None None, Model Map.empty, CommitTransaction,
     BeginTransaction None None, PauseTransaction,
     BeginTransaction None None, EnsureWritable 0, CommitTransaction,
     RestoreTransaction 0, EnsureWritable 0]"

definition cleanCommit :: "nat op list" where
  "cleanCommit = [BeginTransaction None None, Model Map.empty, CommitTransaction,
     BeginTransaction None None, EnsureWritable 0]"

text \<open>The isolation test up to the point where both writers are paused.\<close>

definition bothWriters :: "nat op list" where
  "bothWriters = [BeginTransaction None None, Model Map.empty, CommitTransaction,
     BeginTransaction None None, EnsureWritable 0, PauseTransaction,
     BeginTransaction None None, EnsureWritable 0, PauseTransaction]"




section \<open>Properties\<close>

subsection \<open>Evaluating the engine on concrete inputs\<close>

lemma findVisible_loop_None: "findVisible_loop h None t i = Some None"
  by (simp add: findVisible_loop.simps)

lemma findVisible_loop_Some:
  "findVisible_loop h (Some a) t i =
     (if hidden h a t i then findVisible_loop h (s_previous (h a)) t i else Some (Some a))"
  by (subst findVisible_loop.simps) simp

lemma spliceWalk_None: "spliceWalk h nx None n = Some (nx, None)"
  by (simp add: spliceWalk.simps)

lemma spliceWalk_Some:
  "spliceWalk h nx (Some a) n =
     (if minOrZero h a > n then spliceWalk h (StateRef a) (s_previous (h a)) n
      else Some (nx, Some a))"
  by (subst spliceWalk.simps) simp

lemma dataOf_empty: "dataOf Map.empty = Map.empty"
  by (simp add: dataOf_def)

lemmas engine_eval =
  dataOf_empty init_def emptyState_def emptyEntity_def isValid_def hidden_def findVisible_def
  findVisible_loop_None findVisible_loop_Some invalidOf_def makeReadable_def
  ensureReadable_def clone_def currentInvalid_def minOrZero_def spliceWalk_None
  spliceWalk_Some setPrevious_def newClone_def linkNewState_def makeWritable_def
  ensureWritable_def bindState_def model_def setFrameState_def beginTransaction_def
  pauseTransaction_def slot_def restoreTransaction_def abortTransaction_def
  commitTransaction_def Let_def

subsection \<open>What each call leaves unchanged\<close>

lemma afterI:
  "f = Returns u s' \<Longrightarrow> after f = Some s'"
  "f = Throws x s' \<Longrightarrow> after f = Some s'"
  by simp_all

lemma ensureReadable_control:
  "after (ensureReadable e s) = Some s' \<Longrightarrow>
     controlOf s' = controlOf s \<and> currentTransaction s' = currentTransaction s \<and>
     states s' = states s \<and> nextState s' = nextState s \<and> nextEntity s' = nextEntity s"
  unfolding ensureReadable_def makeReadable_def controlOf_def
  by (auto split: if_splits option.splits)

lemmas ensureReadable_controlD =
  ensureReadable_control [OF afterI(1)] ensureReadable_control [OF afterI(2)]

lemma linkNewState_control: "controlOf (linkNewState e st new nx pr s) = controlOf s"
  by (cases nx) (simp_all add: linkNewState_def setPrevious_def controlOf_def Let_def)

lemma newClone_control: "controlOf (newClone e st s) = controlOf s"
  by (simp add: newClone_def controlOf_def)

lemma makeWritable_control:
  "after (makeWritable e s) = Some s' \<Longrightarrow> controlOf s' = controlOf s"
  unfolding makeWritable_def
  by (auto split: option.splits outcome.splits prod.splits
      simp: Let_def linkNewState_control newClone_control dest!: ensureReadable_controlD)

lemma ensureWritable_control:
  "after (ensureWritable e s) = Some s' \<Longrightarrow> controlOf s' = controlOf s"
  unfolding ensureWritable_def
  by (auto split: option.splits if_splits dest: makeWritable_control)

lemma model_control:
  "after (model props s) = Some s' \<Longrightarrow>
     controlOf s' = controlOf s \<and> currentTransaction s' = currentTransaction s"
  by (auto simp: model_def bindState_def controlOf_def Let_def)

lemma begin_heap: "after (beginTransaction c a s) = Some s' \<Longrightarrow> heapOf s' = heapOf s"
  by (auto simp: beginTransaction_def heapOf_def Let_def split: option.splits)

lemma pause_heap: "after (pauseTransaction s) = Some s' \<Longrightarrow> heapOf s' = heapOf s"
  by (auto simp: pauseTransaction_def heapOf_def setFrameState_def Let_def
      split: option.splits)

lemma restore_heap: "after (restoreTransaction i s) = Some s' \<Longrightarrow> heapOf s' = heapOf s"
  by (auto simp: restoreTransaction_def heapOf_def setFrameState_def Let_def
      split: option.splits if_splits)

lemma abort_heap: "after (abortTransaction s) = Some s' \<Longrightarrow> heapOf s' = heapOf s"
  by (auto simp: abortTransaction_def heapOf_def setFrameState_def Let_def
      split: option.splits)

lemmas abort_heapD = abort_heap [OF afterI(1)] abort_heap [OF afterI(2)]

lemma commit_heap: "after (commitTransaction s) = Some s' \<Longrightarrow> heapOf s' = heapOf s"
  unfolding commitTransaction_def
  by (auto simp: heapOf_def setFrameState_def Let_def
      split: option.splits if_splits outcome.splits dest!: abort_heapD)

subsection \<open>Visibility resolution\<close>

lemma findVisible_as_loop: "findVisible h a t i = findVisible_loop h (Some a) t i"
  by (simp add: findVisible_def findVisible_loop_Some)

lemma findVisible_loop_chain:
  "chain h p xs \<Longrightarrow> findVisible_loop h p t i = Some (find (\<lambda>b. \<not> hidden h b t i) xs)"
proof (induction xs arbitrary: p)
  case Nil
  then show ?case by (simp add: findVisible_loop_None)
next
  case (Cons a as)
  from Cons.prems have p: "p = Some a" and rest: "chain h (s_previous (h a)) as"
    by simp_all
  show ?case
  proof (cases "hidden h a t i")
    case True
    with Cons.IH [OF rest] p show ?thesis by (simp add: findVisible_loop_Some)
  next
    case False
    with p show ?thesis by (simp add: findVisible_loop_Some)
  qed
qed

lemma findVisible_chain:
  "chain h (Some a) xs \<Longrightarrow> findVisible h a t i = Some (find (\<lambda>b. \<not> hidden h b t i) xs)"
  by (simp only: findVisible_as_loop findVisible_loop_chain)

lemma isValid_iff:
  "isValid ident asOf inval \<longleftrightarrow> (\<exists>i. ident = Some i \<and> i \<le> asOf \<and> \<not> inval i)"
  by (cases ident) (auto simp: isValid_def)

lemma not_hidden_iff:
  "\<not> hidden h b t i \<longleftrightarrow>
     isValid (s_min (h b)) t i \<and> (s_max (h b) = None \<or> \<not> isValid (s_max (h b)) t i)"
  by (auto simp: hidden_def isValid_def)

text \<open>
  Claim C1. A transaction number is visible as of \<open>asOf\<close> under an invalid set iff it
  is defined, at most \<open>asOf\<close> and not in the set. On a chain that ends, \<open>findVisible\<close>
  returns the first node, walking backward from the given one through \<open>_previous\<close>,
  whose \<open>_min\<close> is visible and whose \<open>_max\<close> is unset or not visible; it returns
  \<open>undefined\<close> when the chain has no such node.
\<close>

theorem findVisible_first_visible:
  assumes "chain h (Some a) xs"
  shows "(\<forall>ident. isValid ident asOf inval \<longleftrightarrow>
            (\<exists>i. ident = Some i \<and> i \<le> asOf \<and> \<not> inval i)) \<and>
         findVisible h a asOf inval =
           Some (find (\<lambda>b. isValid (s_min (h b)) asOf inval \<and>
                          (s_max (h b) = None \<or> \<not> isValid (s_max (h b)) asOf inval)) xs)"
proof -
  have "findVisible h a asOf inval = Some (find (\<lambda>b. \<not> hidden h b asOf inval) xs)"
    using assms by (rule findVisible_chain)
  then show ?thesis by (simp add: not_hidden_iff isValid_iff)
qed

text \<open>The chain of the isolation test, seen by a transaction numbered 4 for which
  transaction 3 is invalid: snapshot 2 is skipped, snapshot 1 is returned.\<close>

theorem findVisible_first_visible_witness:
  "chain isolatedChain (Some 2) [2, 1, 0] \<and>
   findVisible isolatedChain 2 4 (\<lambda>i. i = 3) = Some (Some 1)"
  using findVisible_first_visible [of isolatedChain 2 "[2, 1, 0]" 4 "\<lambda>i. i = 3"]
  by (simp add: isolatedChain_def emptyState_def isValid_def)

subsection \<open>The abort callback\<close>

text \<open>
  Claim C8. \<open>abortTransaction\<close> is expected to call the abort callback given to
  \<open>beginTransaction\<close>. The code does not: a transaction begun with the abort callback
  8 and then aborted leaves the callback stored in its frame and the trace of calls
  empty, while the same transaction begun with the commit callback 7 and committed has
  called it.
\<close>

theorem abortTransaction_skips_onabort:
  "(\<exists>f s1 s2. beginTransaction (Some 7) (Some 8) (init :: nat engine) = Returns f s1 \<and>
      abortTransaction s1 = Returns () s2 \<and>
      state (frames s2 f) = Aborted \<and> onabort (frames s2 f) = Some 8 \<and>
      invoked s2 = []) \<and>
   (\<exists>f s1 s2. beginTransaction (Some 7) (Some 8) (init :: nat engine) = Returns f s1 \<and>
      commitTransaction s1 = Returns [] s2 \<and> invoked s2 = [OnCommit 7 []])"
  by (simp add: engine_eval)

subsection \<open>Reading an entity with no visible snapshot\<close>

text \<open>
  Claim C9. A reachable state in which \<open>findVisible\<close> walks off the end of the chain:
  transaction 1 creates an entity and is paused, so transaction 2 holds 1 in its
  invalid set and the creator of the entity's only snapshot is not visible to it.
  \<open>findVisible\<close> returns \<open>undefined\<close>, and \<open>ensureReadable\<close> returns normally with
  the entity's \<open>_state\<close> set to \<open>undefined\<close>.
\<close>

theorem ensureReadable_caches_undefined:
  "\<exists>s first s'.
     run [BeginTransaction None None, Model Map.empty, PauseTransaction,
          BeginTransaction None None] (init :: nat engine) = Some s \<and>
     invalidOf (currentTransaction s) 1 \<and>
     e_previous (entities s 0) = Some first \<and> s_min (states s first) = Some 1 \<and>
     s_previous (states s first) = None \<and>
     findVisible (states s) first (currentTransactionNumber s)
       (invalidOf (currentTransaction s)) = Some None \<and>
     ensureReadable 0 s = Returns () s' \<and> e_state (entities s' 0) = None"
  by (simp add: engine_eval)

subsection \<open>Case analysis of the calls\<close>

lemma ensureReadable_cases [consumes 1, case_names same resolved]:
  assumes "after (ensureReadable e s) = Some s'"
  obtains (same) "s' = s"
  | (resolved) first r where
      "e_transaction (entities s e) \<noteq> Some (currentTransactionNumber s)"
      "e_previous (entities s e) = Some first"
      "findVisible (states s) first (currentTransactionNumber s)
         (invalidOf (currentTransaction s)) = Some r"
      "ensureReadable e s = Returns () s'"
      "s' = s\<lparr>entities := (entities s)(e := (entities s e)
          \<lparr>e_state := r, e_transaction := Some (currentTransactionNumber s)\<rparr>)\<rparr>"
  using assms unfolding ensureReadable_def makeReadable_def
  by (auto split: if_splits option.splits)

lemma makeWritable_cases [consumes 1, case_names unchanged readOnly written]:
  assumes "after (makeWritable e s) = Some s'"
  obtains (unchanged) "s' = s"
  | (readOnly) "after (ensureReadable e s) = Some s'"
  | (written) t s1 st nx pr where
      "currentTransaction s = Some t"
      "ensureReadable e s = Returns () s1"
      "e_state (entities s1 e) = Some st"
      "spliceWalk (states (newClone e st s1)) (EntityRef e)
         (e_previous (entities (newClone e st s1) e))
         (currentTransactionNumber (newClone e st s1)) = Some (nx, pr)"
      "makeWritable e s = Returns () s'"
      "s' = linkNewState e st (nextState s1) nx pr (newClone e st s1)"
  using assms unfolding makeWritable_def
  by (auto split: option.splits outcome.splits prod.splits simp: Let_def)

lemma ensureWritable_cases [consumes 1, case_names unchanged made]:
  assumes "after (ensureWritable e s) = Some s'"
  obtains (unchanged) "s' = s"
  | (made) "after (makeWritable e s) = Some s'"
  using assms unfolding ensureWritable_def
  by (auto split: option.splits if_splits)

lemma linkNewState_transaction:
  "currentTransaction (linkNewState e st new nx pr s) =
     map_option (\<lambda>t. t\<lparr>mutated := mutated t @ [new]\<rparr>) (currentTransaction s)"
  by (cases nx) (simp_all add: linkNewState_def setPrevious_def Let_def)

lemma newClone_transaction: "currentTransaction (newClone e st s) = currentTransaction s"
  by (simp add: newClone_def)

lemma makeWritable_transaction:
  assumes "after (makeWritable e s) = Some s'"
  shows "map_option (\<lambda>t. (number t, invalid t, frame t)) (currentTransaction s') =
     map_option (\<lambda>t. (number t, invalid t, frame t)) (currentTransaction s)"
  using assms
proof (cases rule: makeWritable_cases)
  case unchanged
  then show ?thesis by simp
next
  case readOnly
  then show ?thesis by (simp add: ensureReadable_control)
next
  case (written t s1 st nx pr)
  from written(2) have "currentTransaction s1 = currentTransaction s"
    by (simp add: ensureReadable_controlD)
  with written(6) show ?thesis
    by (simp add: linkNewState_transaction newClone_transaction option.map_comp comp_def)
qed

lemma ensureWritable_transaction:
  assumes "after (ensureWritable e s) = Some s'"
  shows "map_option (\<lambda>t. (number t, invalid t, frame t)) (currentTransaction s') =
     map_option (\<lambda>t. (number t, invalid t, frame t)) (currentTransaction s)"
  using assms
  by (cases rule: ensureWritable_cases) (simp_all add: makeWritable_transaction)

subsection \<open>The commit watermark\<close>

lemma commit_watermark:
  "after (commitTransaction s) = Some s' \<Longrightarrow>
     highestCommittedTransaction s \<le> highestCommittedTransaction s'"
  unfolding commitTransaction_def
  by (auto simp: setFrameState_def abortTransaction_def Let_def
      split: option.splits if_splits outcome.splits)

lemma step_watermark:
  assumes "step x s = Some s'"
  shows "highestCommittedTransaction s \<le> highestCommittedTransaction s'"
  using assms
  by (cases x)
     (auto simp: controlOf_def beginTransaction_def pauseTransaction_def
        restoreTransaction_def abortTransaction_def setFrameState_def Let_def
       split: option.splits if_splits
       dest!: ensureReadable_control ensureWritable_control model_control commit_watermark)

lemma run_watermark:
  "run xs s = Some s' \<Longrightarrow> highestCommittedTransaction s \<le> highestCommittedTransaction s'"
proof (induction xs arbitrary: s)
  case Nil
  then show ?case by simp
next
  case (Cons x xs)
  then obtain s1 where 1: "step x s = Some s1" and 2: "run xs s1 = Some s'"
    by (auto split: option.splits)
  from step_watermark [OF 1] Cons.IH [OF 2] show ?case by simp
qed

lemma commit_Returns_watermark:
  "commitTransaction s = Returns m s' \<Longrightarrow>
     highestCommittedTransaction s' =
       (if currentTransactionNumber s > highestCommittedTransaction s
        then currentTransactionNumber s else highestCommittedTransaction s)"
  unfolding commitTransaction_def
  by (auto simp: setFrameState_def abortTransaction_def Let_def
      split: option.splits if_splits outcome.splits)

lemma commit_Throws_watermark:
  "commitTransaction s = Throws e s' \<Longrightarrow>
     highestCommittedTransaction s' = highestCommittedTransaction s"
  unfolding commitTransaction_def
  by (auto simp: setFrameState_def abortTransaction_def Let_def
      split: option.splits if_splits outcome.splits)

lemma step_activeOpen:
  assumes "step x s = Some s'" "activeOpen s"
  shows "activeOpen s'"
proof (cases x)
  case (EnsureWritable e)
  with assms(1) have a: "after (ensureWritable e s) = Some s'" by simp
  from ensureWritable_control [OF a] ensureWritable_transaction [OF a] assms(2)
  show ?thesis by (auto simp: activeOpen_def controlOf_def split: option.splits)
next
  case CommitTransaction
  with assms(1) have "after (commitTransaction s) = Some s'" by simp
  then show ?thesis
    unfolding commitTransaction_def activeOpen_def
    by (auto simp: setFrameState_def abortTransaction_def Let_def
        split: option.splits if_splits outcome.splits)
qed (use assms in \<open>auto simp: activeOpen_def controlOf_def beginTransaction_def pauseTransaction_def
        restoreTransaction_def abortTransaction_def setFrameState_def Let_def
       split: option.splits if_splits
       dest!: ensureReadable_control model_control\<close>)

lemma run_activeOpen: "run xs s = Some s' \<Longrightarrow> activeOpen s \<Longrightarrow> activeOpen s'"
  by (induction xs arbitrary: s) (auto split: option.splits dest: step_activeOpen)

lemma init_activeOpen: "activeOpen init"
  by (simp add: activeOpen_def init_def)

text \<open>
  Claim C4. From any state reached from the initial one, no sequence of
  \<open>beginTransaction\<close>, \<open>pauseTransaction\<close>, \<open>restoreTransaction\<close>,
  \<open>abortTransaction\<close>, \<open>commitTransaction\<close>, \<open>ensureReadable\<close>,
  \<open>ensureWritable\<close> and \<open>bindState\<close> (through \<open>model\<close>) calls lowers
  \<open>highestCommittedTransaction\<close>. A \<open>commitTransaction\<close> that returns sets it to the
  number of the committing transaction when that number is strictly greater than the
  watermark and leaves it unchanged otherwise; one that throws leaves it unchanged, and
  so does \<open>bindState\<close> on any two objects.
\<close>

theorem watermark_never_decreases:
  assumes "run xs init = Some s" and "run ys s = Some s'"
  shows "highestCommittedTransaction s \<le> highestCommittedTransaction s' \<and>
    (\<forall>t m s''. currentTransaction s' = Some t \<and> commitTransaction s' = Returns m s'' \<longrightarrow>
       highestCommittedTransaction s'' =
         (if number t > highestCommittedTransaction s' then number t
          else highestCommittedTransaction s')) \<and>
    (\<forall>e s''. commitTransaction s' = Throws e s'' \<longrightarrow>
       highestCommittedTransaction s'' = highestCommittedTransaction s') \<and>
    (\<forall>object st. highestCommittedTransaction (bindState object st s') =
       highestCommittedTransaction s')"
proof -
  have "activeOpen s'"
    using assms init_activeOpen by (blast intro: run_activeOpen)
  then have "number t = currentTransactionNumber s'" if "currentTransaction s' = Some t" for t
    using that by (simp add: activeOpen_def)
  then show ?thesis
    using run_watermark [OF assms(2)]
    by (auto simp: bindState_def dest: commit_Returns_watermark commit_Throws_watermark)
qed

theorem watermark_never_decreases_witness:
  "\<exists>s s' t m s''. run lateCommitPrefix init = Some s \<and> run lateCommitSuffix s = Some s' \<and>
     highestCommittedTransaction s = 0 \<and> highestCommittedTransaction s' = 2 \<and>
     currentTransaction s' = Some t \<and> number t = 1 \<and>
     commitTransaction s' = Returns m s'' \<and> highestCommittedTransaction s'' = 2"
  using watermark_never_decreases [of lateCommitPrefix "the (run lateCommitPrefix init)"
      lateCommitSuffix "the (run lateCommitSuffix (the (run lateCommitPrefix init)))"]
  by (simp add: lateCommitPrefix_def lateCommitSuffix_def engine_eval)

subsection \<open>Pause ids\<close>

lemma controlOf_paused:
  "controlOf s' = controlOf s \<Longrightarrow> pausedTransactions s' = pausedTransactions s"
  by (simp add: controlOf_def)

lemma step_paused:
  assumes "step x s = Some s'"
  shows "length (pausedTransactions s) \<le> length (pausedTransactions s') \<and>
         (freed s i \<longrightarrow> freed s' i)"
proof (cases x)
  case CommitTransaction
  with assms have "after (commitTransaction s) = Some s'" by simp
  then have "pausedTransactions s' = pausedTransactions s"
    unfolding commitTransaction_def
    by (auto simp: setFrameState_def abortTransaction_def Let_def
        split: option.splits if_splits outcome.splits)
  then show ?thesis by (simp add: freed_def)
next
  case (RestoreTransaction j)
  with assms have "after (restoreTransaction j s) = Some s'" by simp
  then show ?thesis
    unfolding restoreTransaction_def
    by (auto simp: setFrameState_def freed_def slot_def Let_def nth_list_update
        split: option.splits if_splits)
next
  case PauseTransaction
  with assms have "after (pauseTransaction s) = Some s'" by simp
  then show ?thesis
    unfolding pauseTransaction_def
    by (auto simp: setFrameState_def freed_def Let_def nth_append
        split: option.splits if_splits)
qed (use assms in \<open>auto simp: freed_def beginTransaction_def abortTransaction_def
        setFrameState_def Let_def split: option.splits
        dest!: ensureReadable_control ensureWritable_control model_control controlOf_paused\<close>)

lemma run_paused:
  "run xs s = Some s' \<Longrightarrow>
     length (pausedTransactions s) \<le> length (pausedTransactions s') \<and>
     (freed s i \<longrightarrow> freed s' i)"
proof (induction xs arbitrary: s)
  case Nil
  then show ?case by simp
next
  case (Cons x xs)
  then obtain s1 where 1: "step x s = Some s1" and 2: "run xs s1 = Some s'"
    by (auto split: option.splits)
  from step_paused [OF 1, of i] Cons.IH [OF 2] show ?case by auto
qed

lemma pause_Returns:
  "pauseTransaction s = Returns i s1 \<Longrightarrow>
     i = length (pausedTransactions s) \<and> length (pausedTransactions s1) = Suc i"
  by (auto simp: pauseTransaction_def setFrameState_def Let_def split: option.splits)

lemma restore_Returns_freed: "restoreTransaction i s = Returns u s1 \<Longrightarrow> freed s1 i"
  by (auto simp: restoreTransaction_def setFrameState_def slot_def freed_def Let_def
      split: option.splits if_splits)

lemma restore_freed:
  "freed s i \<Longrightarrow>
     restoreTransaction i s =
       (case currentTransaction s of
          None \<Rightarrow> Throws InvalidPausedTransaction s
        | Some _ \<Rightarrow> Throws InvalidInternalState s)"
  by (simp add: restoreTransaction_def slot_def freed_def split: option.splits)

text \<open>
  Claim C10, as amended. \<open>pauseTransaction\<close> returns the length of
  \<open>pausedTransactions\<close>, which never shrinks, so a later pause returns a strictly
  greater id and a freed slot stays a hole. A second \<open>restoreTransaction\<close> with an id
  whose slot has been restored fails: with the invalid-paused-transaction error when no
  transaction is active, and with the internal-state assertion error (raised by
  \<open>assertNotInTransaction\<close> before the slot is read) when one is active.
\<close>

theorem pause_ids_never_reused:
  "(pauseTransaction s = Returns i s1 \<and> run ys s1 = Some s2 \<and>
      pauseTransaction s2 = Returns j s3 \<longrightarrow> i < j) \<and>
   (restoreTransaction i s = Returns u s1 \<and> run ys s1 = Some s2 \<longrightarrow>
      restoreTransaction i s2 =
        (case currentTransaction s2 of
           None \<Rightarrow> Throws InvalidPausedTransaction s2
         | Some _ \<Rightarrow> Throws InvalidInternalState s2))"
proof (intro conjI impI)
  assume a: "pauseTransaction s = Returns i s1 \<and> run ys s1 = Some s2 \<and>
      pauseTransaction s2 = Returns j s3"
  then have "length (pausedTransactions s1) = Suc i" "j = length (pausedTransactions s2)"
    by (auto dest: pause_Returns)
  moreover from a have "length (pausedTransactions s1) \<le> length (pausedTransactions s2)"
    using run_paused [of ys s1 s2] by simp
  ultimately show "i < j" by simp
next
  assume a: "restoreTransaction i s = Returns u s1 \<and> run ys s1 = Some s2"
  then have "freed s1 i" by (auto dest: restore_Returns_freed)
  with a have "freed s2 i" using run_paused [of ys s1 s2 i] by simp
  then show "restoreTransaction i s2 =
        (case currentTransaction s2 of
           None \<Rightarrow> Throws InvalidPausedTransaction s2
         | Some _ \<Rightarrow> Throws InvalidInternalState s2)"
    by (rule restore_freed)
qed

theorem pause_ids_never_reused_witness:
  "(\<exists>s s1 s2 s3. run [BeginTransaction None None] (init :: nat engine) = Some s \<and>
      pauseTransaction s = Returns 0 s1 \<and>
      run [RestoreTransaction 0] s1 = Some s2 \<and> pauseTransaction s2 = Returns 1 s3) \<and>
   (\<exists>s s1 s2. run pausedOnce (init :: nat engine) = Some s \<and>
      restoreTransaction 0 s = Returns () s1 \<and> run [CommitTransaction] s1 = Some s2 \<and>
      currentTransaction s2 = None \<and>
      restoreTransaction 0 s2 = Throws InvalidPausedTransaction s2)"
proof -
  let ?a = "the (run [BeginTransaction None None] (init :: nat engine))"
  let ?a1 = "the (after (pauseTransaction ?a))"
  let ?a2 = "the (run [RestoreTransaction 0] ?a1)"
  let ?a3 = "the (after (pauseTransaction ?a2))"
  let ?b = "the (run pausedOnce (init :: nat engine))"
  let ?b1 = "the (after (restoreTransaction 0 ?b))"
  let ?b2 = "the (run [CommitTransaction] ?b1)"
  show ?thesis
    using pause_ids_never_reused [of ?a 0 ?a1 "[RestoreTransaction 0]" ?a2 1 ?a3]
      pause_ids_never_reused [of ?b 0 ?b1 "[CommitTransaction]" ?b2 _ _ "()"]
    by (simp add: pausedOnce_def engine_eval)
qed

text \<open>The claim as stated fails directly after the first restore, when the restored
  transaction is active: the second restore throws the assertion error.\<close>

theorem second_restore_while_active:
  "\<exists>s. run pausedTwice init = Some s \<and>
     restoreTransaction 0 s = Throws InvalidInternalState s"
  by (simp add: pausedTwice_def engine_eval)

subsection \<open>Retirement points\<close>

lemma heapOf_states: "heapOf s' = heapOf s \<Longrightarrow> states s' = states s \<and> nextState s' = nextState s"
  by (simp add: heapOf_def)

lemma linkNewState_states:
  "states (linkNewState e st new nx pr s) a =
     (let h1 = (states s)(new := (states s new)\<lparr>s_previous := pr\<rparr>);
          h2 = (case nx of EntityRef _ \<Rightarrow> h1
                | StateRef b \<Rightarrow> h1(b := (h1 b)\<lparr>s_previous := Some new\<rparr>))
      in (h2(st := (h2 st)\<lparr>s_max := Some (currentTransactionNumber s)\<rparr>)) a)"
  by (cases nx) (simp_all add: linkNewState_def setPrevious_def Let_def)

lemma linkNewState_nextState: "nextState (linkNewState e st new nx pr s) = nextState s"
  by (cases nx) (simp_all add: linkNewState_def setPrevious_def Let_def)

lemma makeWritable_max:
  assumes "after (makeWritable e s) = Some s'" "a < nextState s"
  shows "a < nextState s' \<and>
     (s_max (states s' a) = s_max (states s a) \<or>
      s_max (states s' a) = Some (currentTransactionNumber s))"
  using assms(1)
proof (cases rule: makeWritable_cases)
  case unchanged
  with assms(2) show ?thesis by simp
next
  case readOnly
  with assms(2) show ?thesis by (simp add: ensureReadable_control)
next
  case (written t s1 st nx pr)
  from written(2) have s1: "states s1 = states s" "nextState s1 = nextState s"
    "currentTransactionNumber s1 = currentTransactionNumber s"
    by (auto dest!: ensureReadable_controlD simp: controlOf_def)
  with written(6) assms(2) show ?thesis
    by (cases nx)
       (auto simp: linkNewState_states linkNewState_nextState newClone_def Let_def)
qed

lemma step_max:
  assumes "step x s = Some s'" "a < nextState s"
  shows "a < nextState s' \<and>
     (s_max (states s' a) = s_max (states s a) \<or>
      (\<exists>e. x = EnsureWritable e) \<and> s_max (states s' a) = Some (currentTransactionNumber s))"
proof (cases x)
  case (EnsureWritable e)
  with assms(1) have "after (ensureWritable e s) = Some s'" by simp
  then show ?thesis
    using assms(2) EnsureWritable
    by (cases rule: ensureWritable_cases) (auto dest: makeWritable_max)
next
  case (Model props)
  with assms show ?thesis by (auto simp: model_def bindState_def Let_def)
qed (use assms in \<open>auto dest!: ensureReadable_control begin_heap pause_heap restore_heap
        abort_heap commit_heap heapOf_states\<close>)

lemma run_max:
  assumes "run xs s = Some s'" and "a < nextState s"
  shows "a < nextState s' \<and>
    (s_max (states s a) \<noteq> None \<longrightarrow> s_max (states s' a) \<noteq> None) \<and>
    ((\<forall>e. EnsureWritable e \<notin> set xs) \<longrightarrow> s_max (states s' a) = s_max (states s a))"
  using assms
proof (induction xs arbitrary: s)
  case Nil
  then show ?case by simp
next
  case (Cons x xs)
  then obtain s1 where 1: "step x s = Some s1" and 2: "run xs s1 = Some s'"
    by (auto split: option.splits)
  from step_max [OF 1 Cons.prems(2)]
  have a: "a < nextState s1"
    and m: "s_max (states s a) \<noteq> None \<longrightarrow> s_max (states s1 a) \<noteq> None"
    and u: "(\<forall>e. x \<noteq> EnsureWritable e) \<longrightarrow> s_max (states s1 a) = s_max (states s a)"
    by auto
  from Cons.IH [OF 2 a] m u show ?case by auto
qed

text \<open>
  Claim C5, as amended. Once the \<open>_max\<close> of an allocated snapshot is set, no
  sequence of engine calls clears it, and a sequence without \<open>ensureWritable\<close> leaves
  it as it is. A single call changes it only if the call is an \<open>ensureWritable\<close>, and
  then to the current transaction number; \<open>bindState\<close>, on any two objects, leaves it
  as it is.
\<close>

theorem max_never_cleared:
  assumes "run xs s = Some s'" and "a < nextState s" and "s_max (states s a) \<noteq> None"
  shows "s_max (states s' a) \<noteq> None \<and>
    ((\<forall>e. EnsureWritable e \<notin> set xs) \<longrightarrow> s_max (states s' a) = s_max (states s a)) \<and>
    (\<forall>x s1. step x s' = Some s1 \<longrightarrow>
       s_max (states s1 a) = s_max (states s' a) \<or>
       (\<exists>e. x = EnsureWritable e) \<and>
         s_max (states s1 a) = Some (currentTransactionNumber s')) \<and>
    (\<forall>object st. s_max (states (bindState object st s') a) = s_max (states s' a))"
proof -
  from run_max [OF assms(1,2)] assms(3)
  have "a < nextState s'" "s_max (states s' a) \<noteq> None"
    "(\<forall>e. EnsureWritable e \<notin> set xs) \<longrightarrow> s_max (states s' a) = s_max (states s a)"
    by simp_all
  moreover have "s_max (states s1 a) = s_max (states s' a) \<or>
       (\<exists>e. x = EnsureWritable e) \<and>
         s_max (states s1 a) = Some (currentTransactionNumber s')"
    if "step x s' = Some s1" for x s1
    using step_max [OF that \<open>a < nextState s'\<close>] by simp
  moreover have "s_max (states (bindState object st s') a) = s_max (states s' a)"
    for object st
    by (simp add: bindState_def)
  ultimately show ?thesis by blast
qed

text \<open>Snapshot 0 of the isolation test, retired by transaction 2: a begin and a read
  by transaction 3 leave its \<open>_max\<close> at 2, the write of transaction 3 sets it to 3.\<close>

theorem max_never_cleared_witness:
  "\<exists>s s' s1. run firstWriter init = Some s \<and>
     run [BeginTransaction None None, EnsureReadable 0] s = Some s' \<and>
     0 < nextState s \<and> s_max (states s 0) = Some 2 \<and> s_max (states s' 0) = Some 2 \<and>
     currentTransactionNumber s' = 3 \<and>
     step (EnsureWritable 0) s' = Some s1 \<and> s_max (states s1 0) = Some 3"
proof -
  let ?s = "the (run firstWriter init)"
  let ?xs = "[BeginTransaction None None, EnsureReadable 0]"
  show ?thesis
    using max_never_cleared [of ?xs ?s "the (run ?xs ?s)" 0]
    by (simp add: firstWriter_def engine_eval)
qed

text \<open>The claim as stated fails in the isolation test: snapshot 0 is retired by
  transaction 2, and the write of transaction 3, for which 2 is invalid, retires it
  again.\<close>

theorem max_overwritten_by_second_writer:
  "\<exists>s s'. run firstWriter init = Some s \<and> run secondWriter s = Some s' \<and>
     s_max (states s 0) = Some 2 \<and> s_max (states s' 0) = Some 3"
  by (simp add: firstWriter_def secondWriter_def engine_eval)

subsection \<open>Chains in the store\<close>

lemma chain_cong:
  "(\<And>a. a \<in> set xs \<Longrightarrow> s_previous (h' a) = s_previous (h a)) \<Longrightarrow>
     chain h' p xs = chain h p xs"
  by (induction xs arbitrary: p) auto

lemma chain_unique: "chain h p xs \<Longrightarrow> chain h p ys \<Longrightarrow> xs = ys"
proof (induction xs arbitrary: p ys)
  case Nil
  then show ?case by (cases ys) auto
next
  case (Cons a as)
  then show ?case by (cases ys) auto
qed

lemma chain_head: "chain h p xs \<Longrightarrow> p = (case xs of [] \<Rightarrow> None | b # _ \<Rightarrow> Some b)"
  by (cases xs) auto

lemma chain_suffix:
  "chain h p (xs @ a # ys) \<Longrightarrow> chain h (Some a) (a # ys)"
  by (induction xs arbitrary: p) auto

lemma chain_not_in_tail:
  assumes "chain h (Some a) (a # as)"
  shows "a \<notin> set as"
proof
  assume "a \<in> set as"
  then obtain us vs where as: "as = us @ a # vs" by (auto simp: in_set_conv_decomp)
  with assms have "chain h (s_previous (h a)) (us @ a # vs)" by simp
  then have "chain h (Some a) (a # vs)" by (rule chain_suffix)
  with assms have "a # as = a # vs" by (rule chain_unique)
  with as show False by simp
qed

lemma chain_distinct: "chain h p xs \<Longrightarrow> distinct xs"
proof (induction xs arbitrary: p)
  case Nil
  then show ?case by simp
next
  case (Cons a as)
  then have "chain h (Some a) (a # as)" by simp
  then have "a \<notin> set as" by (rule chain_not_in_tail)
  with Cons show ?case by auto
qed

lemma chain_splice:
  assumes "chain h p (pre @ post)" and "new \<notin> set (pre @ post)"
    and "\<And>a. s_previous (h' a) =
          (if a = new then (case post of [] \<Rightarrow> None | b # _ \<Rightarrow> Some b)
           else if pre \<noteq> [] \<and> a = last pre then Some new
           else s_previous (h a))"
  shows "chain h' (if pre = [] then Some new else p) (pre @ new # post)"
  using assms
proof (induction pre arbitrary: p)
  case Nil
  then have "chain h' p post = chain h p post"
    by (intro chain_cong) auto
  with Nil show ?case by (auto dest: chain_head)
next
  case (Cons a pre)
  from Cons.prems(1) have p: "p = Some a" and rest: "chain h (s_previous (h a)) (pre @ post)"
    by simp_all
  from Cons.prems(1) have "distinct ((a # pre) @ post)" by (rule chain_distinct)
  then have a_fresh: "a \<notin> set pre" "a \<notin> set post" by auto
  from Cons.prems(2) have new: "new \<noteq> a" "new \<notin> set (pre @ post)" by auto
  show ?case
  proof (cases "pre = []")
    case True
    have "chain h' (s_previous (h a)) post = chain h (s_previous (h a)) post"
      using a_fresh new True by (intro chain_cong) (auto simp: Cons.prems(3))
    with rest True have "chain h' (s_previous (h a)) post" by simp
    moreover from rest True have "s_previous (h a) = (case post of [] \<Rightarrow> None | b # _ \<Rightarrow> Some b)"
      by (auto dest: chain_head)
    ultimately show ?thesis
      using True p new by (simp add: Cons.prems(3))
  next
    case False
    then have last: "last (a # pre) = last pre" by simp
    have "chain h' (if pre = [] then Some new else s_previous (h a)) (pre @ new # post)"
    proof (rule Cons.IH [OF rest new(2)])
      fix b
      show "s_previous (h' b) =
          (if b = new then (case post of [] \<Rightarrow> None | b # _ \<Rightarrow> Some b)
           else if pre \<noteq> [] \<and> b = last pre then Some new
           else s_previous (h b))"
        using False by (simp add: Cons.prems(3))
    qed
    moreover from a_fresh False have "a \<noteq> last pre" by (metis last_in_set)
    ultimately show ?thesis
      using False p new by (simp add: Cons.prems(3))
  qed
qed

lemma spliceWalk_chain:
  "chain h p xs \<Longrightarrow>
     spliceWalk h nx p n =
       Some (if takeWhile (\<lambda>a. n < minOrZero h a) xs = [] then nx
             else StateRef (last (takeWhile (\<lambda>a. n < minOrZero h a) xs)),
             case dropWhile (\<lambda>a. n < minOrZero h a) xs of [] \<Rightarrow> None | b # _ \<Rightarrow> Some b)"
proof (induction xs arbitrary: p nx)
  case Nil
  then show ?case by (simp add: spliceWalk_None)
next
  case (Cons a as)
  from Cons.prems have p: "p = Some a" and rest: "chain h (s_previous (h a)) as"
    by simp_all
  show ?case
    using Cons.IH [OF rest, of "StateRef a"] p by (simp add: spliceWalk_Some)
qed

subsection \<open>The state after a write\<close>

lemma ensureReadable_entities:
  assumes "after (ensureReadable e s) = Some s1"
  shows "e_previous (entities s1 x) = e_previous (entities s x)"
    and "x \<noteq> e \<Longrightarrow> entities s1 x = entities s x"
  using assms by (cases rule: ensureReadable_cases; simp)+

lemma afterWrite_previous:
  "s_previous (states (afterWrite e st nx pr s1) a) =
     (if nx = StateRef a then Some (nextState s1)
      else if a = nextState s1 then pr
      else s_previous (states s1 a))"
  by (cases nx)
     (auto simp: afterWrite_def linkNewState_def newClone_def setPrevious_def Let_def)

lemma afterWrite_min:
  "s_min (states (afterWrite e st nx pr s1) a) =
     (if a = nextState s1 then Some (currentTransactionNumber s1) else s_min (states s1 a))"
  by (cases nx)
     (auto simp: afterWrite_def linkNewState_def newClone_def setPrevious_def Let_def clone_def emptyState_def)

lemma afterWrite_max:
  "s_max (states (afterWrite e st nx pr s1) a) =
     (if a = st then Some (currentTransactionNumber s1)
      else if a = nextState s1 then None
      else s_max (states s1 a))"
  by (cases nx)
     (auto simp: afterWrite_def linkNewState_def newClone_def setPrevious_def Let_def clone_def emptyState_def)

lemma afterWrite_owner:
  "s_entity (states (afterWrite e st nx pr s1) a) =
     (if a = nextState s1 then Some e else s_entity (states s1 a))"
  "s_object (states (afterWrite e st nx pr s1) a) =
     (if a = nextState s1 then None else s_object (states s1 a))"
  by (cases nx;
      auto simp: afterWrite_def linkNewState_def newClone_def setPrevious_def Let_def clone_def emptyState_def)+

lemma afterWrite_entities:
  "e_previous (entities (afterWrite e st nx pr s1) x) =
     (if nx = EntityRef x then Some (nextState s1) else e_previous (entities s1 x))"
  "e_state (entities (afterWrite e st nx pr s1) x) =
     (if x = e then Some (nextState s1) else e_state (entities s1 x))"
  "e_transaction (entities (afterWrite e st nx pr s1) x) = e_transaction (entities s1 x)"
  by (cases nx;
      auto simp: afterWrite_def linkNewState_def newClone_def setPrevious_def Let_def)+

lemma afterWrite_counters:
  "nextState (afterWrite e st nx pr s1) = Suc (nextState s1)"
  "nextEntity (afterWrite e st nx pr s1) = nextEntity s1"
  by (cases nx;
      simp add: afterWrite_def linkNewState_def newClone_def setPrevious_def Let_def)+

lemma newClone_fields:
  "e_previous (entities (newClone e st s1) x) = e_previous (entities s1 x)"
  "currentTransactionNumber (newClone e st s1) = currentTransactionNumber s1"
  "a \<noteq> nextState s1 \<Longrightarrow> states (newClone e st s1) a = states s1 a"
  by (simp_all add: newClone_def)

lemma afterWrite_chain:
  fixes s1 :: "'v engine"
  defines "n \<equiv> currentTransactionNumber s1"
  defines "P \<equiv> (\<lambda>a. n < minOrZero (states s1) a)"
  assumes walk: "spliceWalk (states (newClone e st s1)) (EntityRef e)
         (e_previous (entities (newClone e st s1) e))
         (currentTransactionNumber (newClone e st s1)) = Some (nx, pr)"
    and ch: "chain (states s1) (e_previous (entities s1 e)) xs"
    and alloc: "\<forall>a\<in>set xs. a < nextState s1"
  shows "chain (states (afterWrite e st nx pr s1)) (e_previous (entities (afterWrite e st nx pr s1) e))
           (takeWhile P xs @ nextState s1 # dropWhile P xs)"
proof -
  let ?h2 = "states (newClone e st s1)"
  let ?new = "nextState s1"
  let ?pre = "takeWhile P xs" and ?post = "dropWhile P xs"
  from alloc have fresh: "?new \<notin> set xs" by auto
  have same: "?h2 a = states s1 a" if "a \<in> set xs" for a
    using that fresh newClone_fields(3) [of a s1 e st] by blast
  have ch2: "chain ?h2 (e_previous (entities s1 e)) xs"
    using ch same chain_cong [of xs ?h2 "states s1"] by simp
  have P2: "takeWhile (\<lambda>a. n < minOrZero ?h2 a) xs = ?pre"
    "dropWhile (\<lambda>a. n < minOrZero ?h2 a) xs = ?post"
    unfolding P_def
    by (rule takeWhile_cong dropWhile_cong; simp add: same minOrZero_def)+
  from walk spliceWalk_chain [OF ch2, of "EntityRef e" n] P2
  have nx: "nx = (if ?pre = [] then EntityRef e else StateRef (last ?pre))"
    and pr: "pr = (case ?post of [] \<Rightarrow> None | b # _ \<Rightarrow> Some b)"
    by (simp_all add: newClone_fields n_def)
  have "chain (states (afterWrite e st nx pr s1))
          (if ?pre = [] then Some ?new else e_previous (entities s1 e)) (?pre @ ?new # ?post)"
  proof (rule chain_splice [where h = "states s1"])
    show "chain (states s1) (e_previous (entities s1 e)) (?pre @ ?post)"
      using ch by simp
    show "?new \<notin> set (?pre @ ?post)" using fresh by simp
    fix a
    show "s_previous (states (afterWrite e st nx pr s1) a) =
          (if a = ?new then (case ?post of [] \<Rightarrow> None | b # _ \<Rightarrow> Some b)
           else if ?pre \<noteq> [] \<and> a = last ?pre then Some ?new
           else s_previous (states s1 a))"
    proof (cases "?pre = []")
      case True
      with nx pr show ?thesis by (simp add: afterWrite_previous)
    next
      case False
      then have "last ?pre \<in> set xs" by (metis last_in_set set_takeWhileD)
      with fresh have "last ?pre \<noteq> ?new" by auto
      with False nx pr show ?thesis by (auto simp: afterWrite_previous)
    qed
  qed
  moreover have "e_previous (entities (afterWrite e st nx pr s1) e) =
      (if ?pre = [] then Some ?new else e_previous (entities s1 e))"
    using nx by (simp add: afterWrite_entities)
  ultimately show ?thesis by simp
qed

subsection \<open>Order of the chain\<close>

lemma ensureWritable_Returns_cases [consumes 1, case_names ready made]:
  assumes "ensureWritable e s = Returns u s'"
  obtains (ready) "writable s e" "s' = s"
  | (made) "\<not> writable s e" "makeWritable e s = Returns u s'"
  using assms unfolding ensureWritable_def writable_def
  by (auto split: option.splits if_splits)

lemma makeWritable_Returns_cases [consumes 1]:
  assumes "makeWritable e s = Returns u s'"
  obtains s1 st nx pr where
      "currentTransaction s \<noteq> None"
      "ensureReadable e s = Returns () s1"
      "e_state (entities s1 e) = Some st"
      "spliceWalk (states (newClone e st s1)) (EntityRef e)
         (e_previous (entities (newClone e st s1) e))
         (currentTransactionNumber (newClone e st s1)) = Some (nx, pr)"
      "s' = afterWrite e st nx pr s1"
  using assms unfolding makeWritable_def afterWrite_def
  by (auto split: option.splits outcome.splits prod.splits simp: Let_def)

lemma sorted_insert_desc:
  fixes f :: "'a \<Rightarrow> int"
  assumes "sorted_wrt (\<ge>) (map f xs)"
  shows "sorted_wrt (\<ge>) (map f (takeWhile (\<lambda>a. n < f a) xs) @ n # map f (dropWhile (\<lambda>a. n < f a) xs))"
  using assms
proof (induction xs)
  case Nil
  then show ?case by simp
next
  case (Cons a as)
  then have IH: "sorted_wrt (\<ge>) (map f (takeWhile (\<lambda>a. n < f a) as) @ n # map f (dropWhile (\<lambda>a. n < f a) as))"
    and le: "\<forall>y\<in>set as. f y \<le> f a" by auto
  show ?case
  proof (cases "n < f a")
    case True
    have "\<forall>y\<in>set (takeWhile (\<lambda>a. n < f a) as). f y \<le> f a"
      "\<forall>y\<in>set (dropWhile (\<lambda>a. n < f a) as). f y \<le> f a"
      using le by (auto dest: set_takeWhileD set_dropWhileD)
    with True IH show ?thesis by auto
  next
    case False
    with Cons.prems le show ?thesis by fastforce
  qed
qed

text \<open>
  Claim C7. Let the chain of an entity end, hold allocated snapshots only and be ordered
  by \<open>_min\<close> descending (an unset \<open>_min\<close> counting as 0, as in the loop test). When
  \<open>ensureWritable\<close> returns, either the entity was already writable and the chain is
  as before, or \<open>makeWritable\<close> has linked the new snapshot, stamped with the current
  transaction number, directly after the leading nodes whose \<open>_min\<close> is strictly
  greater than that number; in both cases the chain is again ordered by \<open>_min\<close>
  descending.
\<close>

theorem ensureWritable_keeps_chain_sorted:
  assumes "ensureWritable e s = Returns () s'"
    and "chain (states s) (e_previous (entities s e)) xs"
    and "\<forall>a\<in>set xs. a < nextState s"
    and "sorted_wrt (\<ge>) (map (minOrZero (states s)) xs)"
  shows "\<exists>ys. ys = (if writable s e then xs
            else takeWhile (\<lambda>a. currentTransactionNumber s < minOrZero (states s) a) xs @
                 nextState s #
                 dropWhile (\<lambda>a. currentTransactionNumber s < minOrZero (states s) a) xs) \<and>
     chain (states s') (e_previous (entities s' e)) ys \<and>
     sorted_wrt (\<ge>) (map (minOrZero (states s')) ys) \<and>
     (\<not> writable s e \<longrightarrow> s_min (states s' (nextState s)) = Some (currentTransactionNumber s))"
  using assms(1)
proof (cases rule: ensureWritable_Returns_cases)
  case ready
  with assms show ?thesis by simp
next
  case made
  let ?n = "currentTransactionNumber s"
  let ?P = "\<lambda>a. ?n < minOrZero (states s) a"
  let ?ys = "takeWhile ?P xs @ nextState s # dropWhile ?P xs"
  from made(2) obtain s1 st nx pr where
      rd: "ensureReadable e s = Returns () s1"
      and walk: "spliceWalk (states (newClone e st s1)) (EntityRef e)
         (e_previous (entities (newClone e st s1) e))
         (currentTransactionNumber (newClone e st s1)) = Some (nx, pr)"
      and s': "s' = afterWrite e st nx pr s1"
    by (cases rule: makeWritable_Returns_cases)
  from rd have a: "after (ensureReadable e s) = Some s1" by simp
  from ensureReadable_control [OF a] ensureReadable_entities(1) [OF a]
  have s1: "states s1 = states s" "nextState s1 = nextState s"
    "currentTransactionNumber s1 = ?n" "e_previous (entities s1 e) = e_previous (entities s e)"
    by (simp_all add: controlOf_def)
  from afterWrite_chain [OF walk, of xs] assms(2,3) s1 s'
  have ch: "chain (states s') (e_previous (entities s' e)) ?ys" by simp
  have key: "minOrZero (states s') a = (if a = nextState s then ?n else minOrZero (states s) a)" for a
    using s' s1 by (simp add: minOrZero_def afterWrite_min)
  from assms(3) have fresh: "nextState s \<notin> set xs" by auto
  have eq: "map (minOrZero (states s')) ?ys =
      map (minOrZero (states s)) (takeWhile ?P xs) @ ?n # map (minOrZero (states s)) (dropWhile ?P xs)"
    using fresh by (auto simp: key dest: set_takeWhileD set_dropWhileD)
  have "sorted_wrt (\<ge>) (map (minOrZero (states s')) ?ys)"
    unfolding eq by (rule sorted_insert_desc [OF assms(4)])
  moreover have "s_min (states s' (nextState s)) = Some ?n"
    by (simp add: s' s1 afterWrite_min)
  ultimately show ?thesis using ch made(1) by simp
qed

text \<open>Transaction 2 resumes and writes after transaction 3 has committed snapshot 1:
  the new snapshot 2 is linked between snapshot 1 (created by 3) and snapshot 0
  (created by 1).\<close>

theorem ensureWritable_keeps_chain_sorted_witness:
  "\<exists>s s'. run lateWriter init = Some s \<and> currentTransactionNumber s = 2 \<and>
     ensureWritable 0 s = Returns () s' \<and>
     chain (states s) (e_previous (entities s 0)) [1, 0] \<and> nextState s = 2 \<and>
     map (minOrZero (states s)) [1, 0] = [3, 1] \<and> \<not> writable s 0 \<and>
     chain (states s') (e_previous (entities s' 0)) [1, 2, 0] \<and>
     map (minOrZero (states s')) [1, 2, 0] = [3, 2, 1]"
proof -
  let ?s = "the (run lateWriter init)"
  let ?s' = "the (after (ensureWritable 0 ?s))"
  show ?thesis
    using ensureWritable_keeps_chain_sorted [of 0 ?s ?s' "[1, 0]"]
    by (simp add: lateWriter_def writable_def engine_eval)
qed

subsection \<open>The commit check\<close>

lemma checkMutated_logged:
  assumes "logged s ms"
  shows "checkMutated s (number t - 1) (invalid t) (currentInvalid s) ms =
     Some (if \<exists>st\<in>set ms. conflicting s t st then Some MergeError else None)"
  using assms
proof (induction ms)
  case Nil
  then show ?case by simp
next
  case (Cons st ms)
  from Cons.prems obtain e first xs where
    e: "s_entity (states s st) = Some e" and first: "e_previous (entities s e) = Some first"
    and ch: "chain (states s) (Some first) xs"
    by (auto simp: logged_def ends_def)
  from Cons.prems have "logged s ms" by (simp add: logged_def)
  note IH = Cons.IH [OF this]
  from ch obtain b c where
    b: "findVisible (states s) first (number t - 1) (invalid t) = Some b"
    and c: "findVisible (states s) first (highestCommittedTransaction s) (currentInvalid s) = Some c"
    by (auto simp: findVisible_chain)
  show ?case
    using e first b c IH by (simp add: conflicting_def)
qed

lemma commitTransaction_conflict_aborts:
  assumes "currentTransaction s = Some t"
    and "number t = currentTransactionNumber s"
    and "logged s (mutated t)"
  shows "if \<exists>st\<in>set (mutated t). conflicting s t st
     then \<exists>s'. commitTransaction s = Throws MergeError s' \<and>
            abortTransaction s = Returns () s' \<and>
            openTransactions s' (number t) = Some Aborted \<and>
            state (frames s' (frame t)) = Aborted \<and>
            currentTransaction s' = None
     else \<exists>s'. commitTransaction s = Returns (mutated t) s' \<and>
            openTransactions s' (number t) = None \<and>
            state (frames s' (frame t)) = Committed \<and>
            currentTransaction s' = None"
proof -
  have chk: "checkMutated s (currentTransactionNumber s - 1) (invalid t) (currentInvalid s) (mutated t) =
     Some (if \<exists>st\<in>set (mutated t). conflicting s t st then Some MergeError else None)"
    using checkMutated_logged [OF assms(3), of t] assms(2) by simp
  show ?thesis
  proof (cases "\<exists>st\<in>set (mutated t). conflicting s t st")
    case True
    with chk assms(1,2) show ?thesis
      by (simp add: commitTransaction_def abortTransaction_def setFrameState_def Let_def)
  next
    case False
    with chk assms(1,2) show ?thesis
      by (simp add: commitTransaction_def setFrameState_def Let_def split: option.splits)
  qed
qed

subsection \<open>Well-formed stores\<close>

lemma wellFormed_init: "wellFormed init"
  by (simp add: wellFormed_def init_def transactionsOf_def)

lemma wellFormedI:
  assumes "\<And>e. e < nextEntity s \<Longrightarrow> \<exists>xs. boundEntity s e xs"
    and "\<And>e. nextEntity s \<le> e \<Longrightarrow> entities s e = emptyEntity"
    and "\<And>t st. t \<in> transactionsOf s \<Longrightarrow> st \<in> set (mutated t) \<Longrightarrow>
           st < nextState s \<and> (\<exists>e<nextEntity s. s_entity (states s st) = Some e)"
  shows "wellFormed s"
  using assms unfolding wellFormed_def by blast

lemma wellFormed_bound: "wellFormed s \<Longrightarrow> e < nextEntity s \<Longrightarrow> \<exists>xs. boundEntity s e xs"
  by (simp add: wellFormed_def)

lemma wellFormed_unbound: "wellFormed s \<Longrightarrow> nextEntity s \<le> e \<Longrightarrow> entities s e = emptyEntity"
  by (simp add: wellFormed_def)

lemma wellFormed_log:
  "wellFormed s \<Longrightarrow> t \<in> transactionsOf s \<Longrightarrow> st \<in> set (mutated t) \<Longrightarrow>
     st < nextState s \<and> (\<exists>e<nextEntity s. s_entity (states s st) = Some e)"
  by (simp add: wellFormed_def)

text \<open>Calls that leave the object stores alone.\<close>

lemma boundEntity_heapOf: "heapOf s' = heapOf s \<Longrightarrow> boundEntity s' e xs = boundEntity s e xs"
  by (simp add: heapOf_def boundEntity_def)

lemma wellFormed_heapOf:
  assumes "heapOf s' = heapOf s" "transactionsOf s' \<subseteq> transactionsOf s \<union> {t. mutated t = []}"
    and "wellFormed s"
  shows "wellFormed s'"
proof (rule wellFormedI)
  fix e assume "e < nextEntity s'"
  with assms(1,3) show "\<exists>xs. boundEntity s' e xs"
    using wellFormed_bound [of s e] boundEntity_heapOf [OF assms(1), of e]
    by (simp add: heapOf_def)
next
  fix e assume "nextEntity s' \<le> e"
  with assms(1,3) show "entities s' e = emptyEntity"
    using wellFormed_unbound [of s e] by (simp add: heapOf_def)
next
  fix t st assume "t \<in> transactionsOf s'" "st \<in> set (mutated t)"
  with assms(2) have "t \<in> transactionsOf s" by auto
  from wellFormed_log [OF assms(3) this \<open>st \<in> set (mutated t)\<close>] assms(1)
  show "st < nextState s' \<and> (\<exists>e<nextEntity s'. s_entity (states s' st) = Some e)"
    by (simp add: heapOf_def)
qed

lemma begin_transactions:
  "after (beginTransaction c a s) = Some s' \<Longrightarrow>
     transactionsOf s' \<subseteq> transactionsOf s \<union> {t. mutated t = []}"
  by (auto simp: beginTransaction_def transactionsOf_def Let_def split: option.splits)

lemma pause_transactions:
  "after (pauseTransaction s) = Some s' \<Longrightarrow> transactionsOf s' \<subseteq> transactionsOf s"
  by (auto simp: pauseTransaction_def transactionsOf_def setFrameState_def Let_def
      split: option.splits)

lemma restore_transactions:
  "after (restoreTransaction i s) = Some s' \<Longrightarrow> transactionsOf s' \<subseteq> transactionsOf s"
proof -
  have upd: "Some t \<in> set (xs[i := None]) \<Longrightarrow> Some t \<in> set xs" for t and xs :: "Transaction option list"
    using set_update_subset_insert [of xs i None] by auto
  assume "after (restoreTransaction i s) = Some s'"
  then show ?thesis
    by (auto simp: restoreTransaction_def transactionsOf_def setFrameState_def slot_def Let_def
        split: option.splits if_splits dest: upd nth_mem)
qed

lemma abort_transactions:
  "after (abortTransaction s) = Some s' \<Longrightarrow>
     currentTransaction s' = None \<and> pausedTransactions s' = pausedTransactions s"
  by (auto simp: abortTransaction_def setFrameState_def Let_def split: option.splits)

lemmas abort_transactionsD = abort_transactions [OF afterI(1)] abort_transactions [OF afterI(2)]

lemma commit_transactions:
  "after (commitTransaction s) = Some s' \<Longrightarrow>
     currentTransaction s' = None \<and> pausedTransactions s' = pausedTransactions s"
  unfolding commitTransaction_def
  by (auto simp: setFrameState_def Let_def
      split: option.splits if_splits outcome.splits dest!: abort_transactionsD)

lemma finished_transactions:
  "currentTransaction s' = None \<and> pausedTransactions s' = pausedTransactions s \<Longrightarrow>
     transactionsOf s' \<subseteq> transactionsOf s"
  by (auto simp: transactionsOf_def)

lemma find_Some_mem: "find P xs = Some a \<Longrightarrow> a \<in> set xs"
  by (induction xs) (auto split: if_splits)

lemma transactionsOf_cong:
  "currentTransaction s' = currentTransaction s \<Longrightarrow>
   pausedTransactions s' = pausedTransactions s \<Longrightarrow> transactionsOf s' = transactionsOf s"
  by (simp add: transactionsOf_def)

lemma ensureReadable_wellFormed:
  assumes "after (ensureReadable e s) = Some s'" and wf: "wellFormed s"
  shows "wellFormed s'"
  using assms(1)
proof (cases rule: ensureReadable_cases)
  case same
  with wf show ?thesis by simp
next
  case (resolved first r)
  note s' = resolved(5)
  have e: "e < nextEntity s"
  proof (rule ccontr)
    assume "\<not> e < nextEntity s"
    then have "entities s e = emptyEntity" using wf by (simp add: wellFormed_unbound)
    with resolved(2) show False by (simp add: emptyEntity_def)
  qed
  have tr: "transactionsOf s' = transactionsOf s"
    by (rule transactionsOf_cong) (simp_all add: s')
  show ?thesis
  proof (rule wellFormedI)
    fix x assume "x < nextEntity s'"
    then have x: "x < nextEntity s" by (simp add: s')
    from wellFormed_bound [OF wf x] obtain xs where b: "boundEntity s x xs" ..
    show "\<exists>xs. boundEntity s' x xs"
    proof (cases "x = e")
      case False
      with b have "boundEntity s' x xs" by (simp add: boundEntity_def s')
      then show ?thesis ..
    next
      case True
      with b resolved(2) have "chain (states s) (Some first) xs" by (simp add: boundEntity_def)
      from findVisible_chain [OF this] resolved(3)
      have "r = find (\<lambda>b. \<not> hidden (states s) b (currentTransactionNumber s)
                (invalidOf (currentTransaction s))) xs" by simp
      then have "\<forall>st. r = Some st \<longrightarrow> st \<in> set xs" by (auto dest: find_Some_mem)
      with b True have "boundEntity s' x xs" by (simp add: boundEntity_def s')
      then show ?thesis ..
    qed
  next
    fix x assume "nextEntity s' \<le> x"
    with e wellFormed_unbound [OF wf, of x] show "entities s' x = emptyEntity"
      by (simp add: s')
  next
    fix t st assume "t \<in> transactionsOf s'" "st \<in> set (mutated t)"
    with wellFormed_log [OF wf, of t st] tr
    show "st < nextState s' \<and> (\<exists>e<nextEntity s'. s_entity (states s' st) = Some e)"
      by (simp add: s')
  qed
qed

lemma model_wellFormed:
  assumes "after (model props s) = Some s'" and wf: "wellFormed s"
  shows "wellFormed s'"
proof -
  let ?sa = "nextState s" and ?m = "nextEntity s"
  from assms(1) have st: "states s' = (states s)(?sa := emptyState
        \<lparr>s_object := Some ?m, s_min := Some (currentTransactionNumber s),
         s_data := dataOf props\<rparr>)"
    and en: "entities s' = (entities s)(?m := \<lparr>e_transaction = Some (currentTransactionNumber s),
         e_previous = Some ?sa, e_state = Some ?sa\<rparr>)"
    and nx: "nextState s' = Suc ?sa" "nextEntity s' = Suc ?m"
    and tr: "currentTransaction s' = currentTransaction s"
      "pausedTransactions s' = pausedTransactions s"
    by (auto simp: model_def bindState_def Let_def emptyEntity_def)
  show ?thesis
  proof (rule wellFormedI)
    fix x assume "x < nextEntity s'"
    then consider "x < ?m" | "x = ?m" using nx by linarith
    then show "\<exists>xs. boundEntity s' x xs"
    proof cases
      case 1
      from wellFormed_bound [OF wf 1] obtain xs where b: "boundEntity s x xs" ..
      then have old: "\<forall>a\<in>set xs. a \<noteq> ?sa" by (auto simp: boundEntity_def)
      then have "chain (states s') (e_previous (entities s x)) xs =
            chain (states s) (e_previous (entities s x)) xs"
        by (intro chain_cong) (simp add: st)
      with b old 1 have "boundEntity s' x xs"
        by (auto simp: boundEntity_def st en nx)
      then show ?thesis ..
    next
      case 2
      then have "boundEntity s' x [?sa]"
        by (simp add: boundEntity_def st en nx emptyState_def ownerOf_def)
      then show ?thesis ..
    qed
  next
    fix x assume "nextEntity s' \<le> x"
    with wellFormed_unbound [OF wf, of x] show "entities s' x = emptyEntity"
      by (simp add: en nx)
  next
    fix t st assume "t \<in> transactionsOf s'" "st \<in> set (mutated t)"
    with wellFormed_log [OF wf, of t st] transactionsOf_cong [OF tr]
    show "st < nextState s' \<and> (\<exists>e<nextEntity s'. s_entity (states s' st) = Some e)"
      by (auto simp: st nx intro: less_SucI)
  qed
qed

lemma afterWrite_walk:
  fixes s1 :: "'v engine"
  defines "P \<equiv> (\<lambda>a. currentTransactionNumber s1 < minOrZero (states s1) a)"
  assumes walk: "spliceWalk (states (newClone e st s1)) (EntityRef e)
         (e_previous (entities (newClone e st s1) e))
         (currentTransactionNumber (newClone e st s1)) = Some (nx, pr)"
    and ch: "chain (states s1) (e_previous (entities s1 e)) xs"
    and alloc: "\<forall>a\<in>set xs. a < nextState s1"
  shows "nx = EntityRef e \<or> (\<exists>a\<in>set xs. nx = StateRef a)"
proof -
  let ?h2 = "states (newClone e st s1)"
  from alloc have fresh: "nextState s1 \<notin> set xs" by auto
  have same: "?h2 a = states s1 a" if "a \<in> set xs" for a
    using that fresh newClone_fields(3) [of a s1 e st] by blast
  have ch2: "chain ?h2 (e_previous (entities s1 e)) xs"
    using ch same chain_cong [of xs ?h2 "states s1"] by simp
  let ?pre = "takeWhile (\<lambda>a. currentTransactionNumber s1 < minOrZero ?h2 a) xs"
  from walk spliceWalk_chain [OF ch2, of "EntityRef e" "currentTransactionNumber s1"]
  have nx: "nx = (if ?pre = [] then EntityRef e else StateRef (last ?pre))"
    by (simp add: newClone_fields)
  show ?thesis
  proof (cases "?pre = []")
    case True
    with nx show ?thesis by simp
  next
    case False
    then have "last ?pre \<in> set xs" by (metis last_in_set set_takeWhileD)
    with nx False show ?thesis by auto
  qed
qed

lemma afterWrite_other_entity:
  "x \<noteq> e \<Longrightarrow> nx \<noteq> EntityRef x \<Longrightarrow> entities (afterWrite e st nx pr s1) x = entities s1 x"
  by (cases nx)
     (auto simp: afterWrite_def linkNewState_def newClone_def setPrevious_def Let_def)

lemma afterWrite_transactions:
  "currentTransaction (afterWrite e st nx pr s1) =
     map_option (\<lambda>t. t\<lparr>mutated := mutated t @ [nextState s1]\<rparr>) (currentTransaction s1)"
  "pausedTransactions (afterWrite e st nx pr s1) = pausedTransactions s1"
  by (cases nx;
      simp add: afterWrite_def linkNewState_def newClone_def setPrevious_def Let_def)+

lemma ownerOf_eq:
  "s_entity a = s_entity b \<Longrightarrow> s_object a = s_object b \<Longrightarrow> ownerOf a = ownerOf b"
  by (auto simp: ownerOf_def split: option.splits)

lemma afterWrite_wellFormed:
  fixes s1 :: "'v engine"
  assumes wf: "wellFormed s1"
    and st: "e_state (entities s1 e) = Some st"
    and walk: "spliceWalk (states (newClone e st s1)) (EntityRef e)
         (e_previous (entities (newClone e st s1) e))
         (currentTransactionNumber (newClone e st s1)) = Some (nx, pr)"
  shows "wellFormed (afterWrite e st nx pr s1)"
proof -
  let ?s' = "afterWrite e st nx pr s1"
  let ?new = "nextState s1"
  have e: "e < nextEntity s1"
  proof (rule ccontr)
    assume "\<not> e < nextEntity s1"
    then have "entities s1 e = emptyEntity" using wf by (simp add: wellFormed_unbound)
    with st show False by (simp add: emptyEntity_def)
  qed
  from wellFormed_bound [OF wf e] obtain xs where b: "boundEntity s1 e xs" ..
  then have ch: "chain (states s1) (e_previous (entities s1 e)) xs"
    and alloc: "\<forall>a\<in>set xs. a < ?new"
    and own: "\<forall>a\<in>set xs. ownerOf (states s1 a) = Some e"
    and stx: "st \<in> set xs"
    using st by (auto simp: boundEntity_def)
  from alloc have fresh: "?new \<notin> set xs" by auto
  with stx have st_new: "st \<noteq> ?new" by auto
  note nx = afterWrite_walk [OF walk ch alloc]
  let ?P = "\<lambda>a. currentTransactionNumber s1 < minOrZero (states s1) a"
  let ?ys = "takeWhile ?P xs @ ?new # dropWhile ?P xs"
  have ys: "set ?ys = insert ?new (set xs)"
  proof -
    have "set (takeWhile ?P xs) \<union> set (dropWhile ?P xs) = set xs"
      by (metis set_append takeWhile_dropWhile_id)
    then show ?thesis by auto
  qed
  have owner_old: "ownerOf (states ?s' a) = ownerOf (states s1 a)" if "a \<noteq> ?new" for a
    using that by (intro ownerOf_eq) (simp_all add: afterWrite_owner)
  show ?thesis
  proof (rule wellFormedI)
    fix x assume "x < nextEntity ?s'"
    then have x: "x < nextEntity s1" by (simp add: afterWrite_counters)
    show "\<exists>zs. boundEntity ?s' x zs"
    proof (cases "x = e")
      case True
      have "chain (states ?s') (e_previous (entities ?s' e)) ?ys"
        using walk ch alloc by (rule afterWrite_chain)
      moreover have "\<forall>a\<in>set ?ys. a < nextState ?s' \<and> ownerOf (states ?s' a) = Some e"
        unfolding ys using alloc own fresh
        by (auto simp: afterWrite_counters owner_old)
           (simp add: ownerOf_def afterWrite_owner)
      moreover have "\<exists>a\<in>set ?ys. s_max (states ?s' a) = None"
        unfolding ys using st_new by (auto simp: afterWrite_max)
      moreover have "\<forall>z. e_state (entities ?s' e) = Some z \<longrightarrow> z \<in> set ?ys"
        unfolding ys by (simp add: afterWrite_entities)
      ultimately have "boundEntity ?s' e ?ys"
        unfolding boundEntity_def by blast
      with True show ?thesis by blast
    next
      case False
      from wellFormed_bound [OF wf x] obtain zs where bz: "boundEntity s1 x zs" ..
      then have zown: "\<forall>a\<in>set zs. a < ?new \<and> ownerOf (states s1 a) = Some x"
        by (simp add: boundEntity_def)
      with own False have disj: "\<forall>a\<in>set zs. a \<notin> set xs \<and> a \<noteq> ?new" by auto
      with nx stx have untouched: "\<forall>a\<in>set zs. nx \<noteq> StateRef a \<and> a \<noteq> st" by auto
      from nx False have nxe: "nx \<noteq> EntityRef x" by auto
      have "chain (states ?s') (e_previous (entities s1 x)) zs =
          chain (states s1) (e_previous (entities s1 x)) zs"
        using disj untouched by (intro chain_cong) (simp add: afterWrite_previous)
      with bz False nxe disj untouched zown have "boundEntity ?s' x zs"
        unfolding boundEntity_def
        by (auto simp: afterWrite_entities afterWrite_counters afterWrite_max owner_old)
      then show ?thesis ..
    qed
  next
    fix x assume "nextEntity ?s' \<le> x"
    then have x: "nextEntity s1 \<le> x" by (simp add: afterWrite_counters)
    with e have "x \<noteq> e" by simp
    moreover have "nx \<noteq> EntityRef x" using nx \<open>x \<noteq> e\<close> by auto
    ultimately show "entities ?s' x = emptyEntity"
      using wellFormed_unbound [OF wf x] by (simp add: afterWrite_other_entity)
  next
    fix t z assume t: "t \<in> transactionsOf ?s'" and z: "z \<in> set (mutated t)"
    have old: "z' < nextState ?s' \<and> (\<exists>e<nextEntity ?s'. s_entity (states ?s' z') = Some e)"
      if "t' \<in> transactionsOf s1" "z' \<in> set (mutated t')" for t' z'
      using wellFormed_log [OF wf that]
      by (auto simp: afterWrite_counters afterWrite_owner)
    have new: "?new < nextState ?s' \<and> (\<exists>e<nextEntity ?s'. s_entity (states ?s' ?new) = Some e)"
      using e by (simp add: afterWrite_counters afterWrite_owner)
    from t consider (paused) "t \<in> transactionsOf s1"
      | (current) t0 where "currentTransaction s1 = Some t0"
          "t = t0\<lparr>mutated := mutated t0 @ [?new]\<rparr>"
      by (auto simp: transactionsOf_def afterWrite_transactions)
    then show "z < nextState ?s' \<and> (\<exists>e<nextEntity ?s'. s_entity (states ?s' z) = Some e)"
    proof cases
      case paused
      then show ?thesis using z by (rule old)
    next
      case current
      then have "t0 \<in> transactionsOf s1" by (simp add: transactionsOf_def)
      with current z old [of t0 z] new show ?thesis by auto
    qed
  qed
qed

lemma makeWritable_wellFormed:
  assumes "after (makeWritable e s) = Some s'" and wf: "wellFormed s"
  shows "wellFormed s'"
  using assms(1)
proof (cases rule: makeWritable_cases)
  case unchanged
  with wf show ?thesis by simp
next
  case readOnly
  then show ?thesis using wf by (rule ensureReadable_wellFormed)
next
  case (written t s1 st nx pr)
  from written(2) have "after (ensureReadable e s) = Some s1" by simp
  then have "wellFormed s1" using wf by (rule ensureReadable_wellFormed)
  from afterWrite_wellFormed [OF this written(3,4)] written(6)
  show ?thesis by (simp add: afterWrite_def)
qed

lemma step_wellFormed:
  assumes "step x s = Some s'" and wf: "wellFormed s"
  shows "wellFormed s'"
proof (cases x)
  case (BeginTransaction c a)
  with assms(1) have a: "after (beginTransaction c a s) = Some s'" by simp
  from begin_heap [OF a] begin_transactions [OF a] wf show ?thesis by (rule wellFormed_heapOf)
next
  case PauseTransaction
  with assms(1) have a: "after (pauseTransaction s) = Some s'" by simp
  from pause_transactions [OF a] have "transactionsOf s' \<subseteq> transactionsOf s \<union> {t. mutated t = []}"
    by auto
  with pause_heap [OF a] show ?thesis using wf by (rule wellFormed_heapOf)
next
  case (RestoreTransaction i)
  with assms(1) have a: "after (restoreTransaction i s) = Some s'" by simp
  from restore_transactions [OF a] have "transactionsOf s' \<subseteq> transactionsOf s \<union> {t. mutated t = []}"
    by auto
  with restore_heap [OF a] show ?thesis using wf by (rule wellFormed_heapOf)
next
  case AbortTransaction
  with assms(1) have a: "after (abortTransaction s) = Some s'" by simp
  from finished_transactions [OF abort_transactions [OF a]]
  have "transactionsOf s' \<subseteq> transactionsOf s \<union> {t. mutated t = []}" by auto
  with abort_heap [OF a] show ?thesis using wf by (rule wellFormed_heapOf)
next
  case CommitTransaction
  with assms(1) have a: "after (commitTransaction s) = Some s'" by simp
  from finished_transactions [OF commit_transactions [OF a]]
  have "transactionsOf s' \<subseteq> transactionsOf s \<union> {t. mutated t = []}" by auto
  with commit_heap [OF a] show ?thesis using wf by (rule wellFormed_heapOf)
next
  case (EnsureReadable e)
  with assms(1) have "after (ensureReadable e s) = Some s'" by simp
  then show ?thesis using wf by (rule ensureReadable_wellFormed)
next
  case (EnsureWritable e)
  with assms(1) have "after (ensureWritable e s) = Some s'" by simp
  then show ?thesis using wf
    by (cases rule: ensureWritable_cases) (auto intro: makeWritable_wellFormed)
next
  case (Model props)
  with assms(1) have "after (model props s) = Some s'" by simp
  then show ?thesis using wf by (rule model_wellFormed)
qed

lemma boundEntity_ends:
  "boundEntity s e xs \<Longrightarrow> \<exists>first. e_previous (entities s e) = Some first \<and> ends (states s) (Some first)"
  by (cases xs) (auto simp: boundEntity_def ends_def intro: exI [of _ "_ # _"])

lemma wellFormed_logged:
  assumes wf: "wellFormed s" and t: "currentTransaction s = Some t"
  shows "logged s (mutated t)"
  unfolding logged_def
proof
  fix st assume st: "st \<in> set (mutated t)"
  from t have "t \<in> transactionsOf s" by (simp add: transactionsOf_def)
  from wellFormed_log [OF wf this st] obtain e where
    e: "e < nextEntity s" "s_entity (states s st) = Some e" by auto
  from wellFormed_bound [OF wf e(1)] obtain xs where "boundEntity s e xs" ..
  from boundEntity_ends [OF this] e(2)
  show "\<exists>e first. s_entity (states s st) = Some e \<and>
        e_previous (entities s e) = Some first \<and> ends (states s) (Some first)"
    by auto
qed

subsection \<open>Every call returns or throws\<close>

lemma ensureReadable_total:
  assumes wf: "wellFormed s"
  shows "ensureReadable e s \<noteq> Diverges"
proof (cases "e_previous (entities s e)")
  case None
  then show ?thesis by (simp add: ensureReadable_def makeReadable_def)
next
  case (Some first)
  have "e < nextEntity s"
  proof (rule ccontr)
    assume "\<not> e < nextEntity s"
    then have "entities s e = emptyEntity" using wf by (simp add: wellFormed_unbound)
    with Some show False by (simp add: emptyEntity_def)
  qed
  from wellFormed_bound [OF wf this] obtain xs where "boundEntity s e xs" ..
  with Some have "chain (states s) (Some first) xs" by (simp add: boundEntity_def)
  from findVisible_chain [OF this] Some show ?thesis
    by (simp add: ensureReadable_def makeReadable_def)
qed

lemma makeWritable_total:
  assumes wf: "wellFormed s"
  shows "makeWritable e s \<noteq> Diverges"
proof (cases "ensureReadable e s")
  case (Returns u s1)
  then have "after (ensureReadable e s) = Some s1" by simp
  then have wf1: "wellFormed s1" using wf by (rule ensureReadable_wellFormed)
  show ?thesis
  proof (cases "e_state (entities s1 e)")
    case None
    with Returns show ?thesis by (simp add: makeWritable_def split: option.splits)
  next
    case (Some st)
    have "e < nextEntity s1"
    proof (rule ccontr)
      assume "\<not> e < nextEntity s1"
      then have "entities s1 e = emptyEntity" using wf1 by (simp add: wellFormed_unbound)
      with Some show False by (simp add: emptyEntity_def)
    qed
    from wellFormed_bound [OF wf1 this] obtain xs where b: "boundEntity s1 e xs" ..
    then have "\<forall>a\<in>set xs. a \<noteq> nextState s1" by (auto simp: boundEntity_def)
    then have "chain (states (newClone e st s1)) (e_previous (entities s1 e)) xs =
        chain (states s1) (e_previous (entities s1 e)) xs"
      by (intro chain_cong) (simp add: newClone_fields)
    with b have "chain (states (newClone e st s1)) (e_previous (entities s1 e)) xs"
      by (simp add: boundEntity_def)
    from spliceWalk_chain [OF this] Returns Some show ?thesis
      by (simp add: makeWritable_def newClone_fields Let_def split: option.splits)
  qed
next
  case (Throws x s1)
  then show ?thesis by (simp add: makeWritable_def split: option.splits)
next
  case Diverges
  with ensureReadable_total [OF wf, of e] show ?thesis by simp
qed

lemma commitTransaction_total:
  assumes wf: "wellFormed s"
  shows "commitTransaction s \<noteq> Diverges"
proof (cases "currentTransaction s")
  case None
  then show ?thesis by (simp add: commitTransaction_def)
next
  case (Some t)
  let ?t = "t\<lparr>number := currentTransactionNumber s\<rparr>"
  from wellFormed_logged [OF wf Some] have "logged s (mutated t)" .
  from checkMutated_logged [OF this, of ?t] Some show ?thesis
    by (simp add: commitTransaction_def abortTransaction_def Let_def split: option.splits)
qed

lemma step_total:
  assumes "wellFormed s"
  shows "step x s \<noteq> None"
proof (cases x)
  case (EnsureReadable e)
  with ensureReadable_total [OF assms, of e] show ?thesis
    by (cases "ensureReadable e s") simp_all
next
  case (EnsureWritable e)
  with makeWritable_total [OF assms, of e] show ?thesis
    by (cases "makeWritable e s")
       (simp_all add: ensureWritable_def split: option.splits)
next
  case CommitTransaction
  with commitTransaction_total [OF assms] show ?thesis
    by (cases "commitTransaction s") simp_all
qed (simp_all add: beginTransaction_def pauseTransaction_def restoreTransaction_def
       abortTransaction_def model_def Let_def split: option.splits)

lemma run_total: "wellFormed s \<Longrightarrow> run xs s \<noteq> None"
proof (induction xs arbitrary: s)
  case Nil
  then show ?case by simp
next
  case (Cons x xs)
  from step_total [OF Cons.prems, of x] obtain s1 where s1: "step x s = Some s1" by auto
  then have "wellFormed s1" using Cons.prems by (rule step_wellFormed)
  from Cons.IH [OF this] s1 show ?case by simp
qed

text \<open>No sequence of calls from the initial state runs forever: every loop over a
  chain comes to its end.\<close>

lemma run_init_total: "\<exists>s. run xs init = Some s"
  using run_total [OF wellFormed_init, of xs] by auto

subsection \<open>States reached from the initial one\<close>

lemma controlOf_table: "controlOf s' = controlOf s \<Longrightarrow> tableBounded s' = tableBounded s"
  by (simp add: controlOf_def tableBounded_def)

lemma step_tableBounded:
  assumes "step x s = Some s'" "activeOpen s" "tableBounded s"
  shows "tableBounded s'"
proof (cases x)
  case CommitTransaction
  with assms(1) have "after (commitTransaction s) = Some s'" by simp
  then show ?thesis
    using assms(2,3) unfolding commitTransaction_def activeOpen_def tableBounded_def
    by (auto simp: setFrameState_def abortTransaction_def Let_def
        split: option.splits if_splits outcome.splits)
next
  case AbortTransaction
  with assms show ?thesis
    by (auto simp: abortTransaction_def activeOpen_def tableBounded_def setFrameState_def Let_def
        split: option.splits if_splits)
next
  case (BeginTransaction c a)
  with assms show ?thesis
    by (fastforce simp: beginTransaction_def tableBounded_def Let_def
        split: option.splits if_splits)
qed (use assms in \<open>auto simp: pauseTransaction_def restoreTransaction_def setFrameState_def
        tableBounded_def Let_def split: option.splits if_splits
        dest!: ensureReadable_control ensureWritable_control model_control controlOf_table\<close>)

lemma step_reachableInv: "step x s = Some s' \<Longrightarrow> reachableInv s \<Longrightarrow> reachableInv s'"
  by (simp add: reachableInv_def step_activeOpen step_tableBounded step_wellFormed)

lemma run_reachableInv: "run xs s = Some s' \<Longrightarrow> reachableInv s \<Longrightarrow> reachableInv s'"
  by (induction xs arbitrary: s) (auto split: option.splits dest: step_reachableInv)

lemma reachableInv_init: "reachableInv init"
  by (simp add: reachableInv_def init_activeOpen wellFormed_init) (simp add: tableBounded_def init_def)

lemma reachable:
  assumes "run xs init = Some s"
  shows "activeOpen s" "tableBounded s" "wellFormed s"
  using run_reachableInv [OF assms reachableInv_init] by (simp_all add: reachableInv_def)

subsection \<open>Commit-time conflicts\<close>

text \<open>
  Claim C2. In every state reached from the initial one with a transaction active:
  if for some state object of its mutation log the snapshot visible at baseline (as of
  the transaction number minus 1, under the invalid set captured at begin) differs from
  the snapshot visible now (as of the commit watermark, under a freshly computed invalid
  set), \<open>commitTransaction\<close> throws the merge error in the state that
  \<open>abortTransaction\<close> leaves: the lifecycle entry is aborted, the frame is aborted and
  no transaction is active. Otherwise it returns the mutation log, with the frame
  committed.
\<close>

theorem commitTransaction_aborts_on_conflict:
  assumes "run xs init = Some s" and "currentTransaction s = Some t"
  shows "if \<exists>st\<in>set (mutated t). conflicting s t st
     then \<exists>s'. commitTransaction s = Throws MergeError s' \<and>
            abortTransaction s = Returns () s' \<and>
            openTransactions s' (number t) = Some Aborted \<and>
            state (frames s' (frame t)) = Aborted \<and>
            currentTransaction s' = None
     else \<exists>s'. commitTransaction s = Returns (mutated t) s' \<and>
            openTransactions s' (number t) = None \<and>
            state (frames s' (frame t)) = Committed \<and>
            currentTransaction s' = None"
proof -
  from reachable(1) [OF assms(1)] assms(2) have "number t = currentTransactionNumber s"
    by (simp add: activeOpen_def)
  moreover from reachable(3) [OF assms(1)] assms(2) have "logged s (mutated t)"
    by (rule wellFormed_logged)
  ultimately show ?thesis by (rule commitTransaction_conflict_aborts [OF assms(2)])
qed

theorem commitTransaction_aborts_on_conflict_witness:
  "(\<exists>s t s'. run conflictingCommit init = Some s \<and> currentTransaction s = Some t \<and>
      number t = 2 \<and> mutated t = [2] \<and> highestCommittedTransaction s = 3 \<and>
      conflicting s t 2 \<and> commitTransaction s = Throws MergeError s' \<and>
      openTransactions s' 2 = Some Aborted \<and> state (frames s' (frame t)) = Aborted \<and>
      currentTransaction s' = None) \<and>
   (\<exists>s t s'. run cleanCommit init = Some s \<and> currentTransaction s = Some t \<and>
      number t = 2 \<and> mutated t = [1] \<and>
      \<not> conflicting s t 1 \<and> commitTransaction s = Returns [1] s' \<and>
      state (frames s' (frame t)) = Committed \<and> currentTransaction s' = None)"
proof -
  let ?a = "the (run conflictingCommit init)"
  let ?b = "the (run cleanCommit init)"
  show ?thesis
    using commitTransaction_aborts_on_conflict [of conflictingCommit ?a "the (currentTransaction ?a)"]
      commitTransaction_aborts_on_conflict [of cleanCommit ?b "the (currentTransaction ?b)"]
    by (simp add: conflictingCommit_def cleanCommit_def conflicting_def engine_eval)
qed

subsection \<open>Snapshots without a retirement point\<close>

text \<open>
  Claim C6, as amended. In every state reached from the initial one by calls of
  \<open>beginTransaction\<close>, \<open>pauseTransaction\<close>, \<open>restoreTransaction\<close>,
  \<open>abortTransaction\<close>, \<open>commitTransaction\<close>, \<open>ensureReadable\<close>,
  \<open>ensureWritable\<close> and \<open>model\<close>, where every \<open>bindState\<close> binds a new entity
  to a new state object whose properties have none of the names that the engine uses, the
  chain of every bound entity ends and at least one snapshot in it has \<open>_max\<close>
  unset. (There can be more than one, and \<open>bindState\<close> on a retired state object
  leaves none, see the counterexample below.)
\<close>

theorem some_snapshot_unretired:
  assumes "run xs init = Some s" and "e < nextEntity s"
  shows "\<exists>ys. chain (states s) (e_previous (entities s e)) ys \<and>
     1 \<le> length (filter (\<lambda>a. s_max (states s a) = None) ys)"
proof -
  from wellFormed_bound [OF reachable(3) [OF assms(1)] assms(2)]
  obtain ys where b: "boundEntity s e ys" ..
  then obtain a where "a \<in> set ys" "s_max (states s a) = None"
    by (auto simp: boundEntity_def)
  then have "filter (\<lambda>a. s_max (states s a) = None) ys \<noteq> []"
    by (auto simp: filter_empty_conv)
  then have "1 \<le> length (filter (\<lambda>a. s_max (states s a) = None) ys)"
    by (cases "filter (\<lambda>a. s_max (states s a) = None) ys") simp_all
  with b show ?thesis by (auto simp: boundEntity_def)
qed

theorem some_snapshot_unretired_witness:
  "\<exists>s. run firstWriter init = Some s \<and> 0 < nextEntity s \<and>
     chain (states s) (e_previous (entities s 0)) [1, 0] \<and>
     filter (\<lambda>a. s_max (states s a) = None) [1, 0] = [1]"
  using some_snapshot_unretired [of firstWriter "the (run firstWriter init)" 0]
  by (simp add: firstWriter_def engine_eval)

text \<open>The claim as stated fails in the isolation test: while both writers are paused,
  each of their snapshots (2 and 1) has no \<open>_max\<close>. It fails in the other direction
  when \<open>bindState\<close> is called on a state object that is already retired: binding the
  entity again to its first state object, snapshot 0, which transaction 3 has retired,
  leaves it a chain of snapshot 0 alone, with no unretired snapshot.\<close>

theorem two_snapshots_unretired:
  "\<exists>s. run bothWriters init = Some s \<and>
     chain (states s) (e_previous (entities s 0)) [2, 1, 0] \<and>
     filter (\<lambda>a. s_max (states s a) = None) [2, 1, 0] = [2, 1] \<and>
     s_max (states s 0) = Some 3 \<and>
     chain (states (bindState 0 0 s)) (e_previous (entities (bindState 0 0 s) 0)) [0] \<and>
     filter (\<lambda>a. s_max (states (bindState 0 0 s) a) = None) [0] = []"
  by (simp add: bothWriters_def engine_eval)

subsection \<open>Retirement points and the snapshots that set them\<close>







subsection \<open>The effect of a call on the chain of an entity\<close>
















subsection \<open>The lifecycle table\<close>














subsection \<open>Abort\<close>









end
